theory Spec2Isabelle
  imports Complex_Main "HOL-Library.Word" "HOL-Library.Char_ord" "HOL-Library.List_Lexorder"
begin

section \<open>The ArXiv client: a shallow embedding of \<^verbatim>\<open>arxiv_client.py\<close>\<close>

text \<open>
  The client of \<^verbatim>\<open>scientific-skills/arxiv-database/scripts/arxiv_client.py\<close> is modelled
  function by function, under the names of the source. Conventions:
  \<^item> a Python \<^verbatim>\<open>str\<close> is a \<open>string\<close>; a character stands for the code point of its
    number, so the model covers the code points 0 to 255;
  \<^item> wall-clock readings (\<^verbatim>\<open>time.time()\<close>, \<^verbatim>\<open>datetime.now()\<close>) and durations are
    real numbers of seconds, the clock being an explicit argument;
  \<^item> an exception is a value of type \<open>error\<close>; a function that can raise returns
    \<open>error + 'a\<close>, with \<open>Inl\<close> for the exception;
  \<^item> what the source prints on standard output is left out.
\<close>

subsection \<open>Python strings\<close>

text \<open>
  \<^verbatim>\<open>str.isspace\<close> and the pattern \<^verbatim>\<open>\s\<close> agree on one set of characters; below
  code point 256 these are 9 to 13, 28 to 32, 133 and 160. The pattern \<^verbatim>\<open>\d\<close> is a
  decimal digit; below code point 256 these are \<^verbatim>\<open>0\<close> to \<^verbatim>\<open>9\<close>.
\<close>

definition is_space :: "char \<Rightarrow> bool" where
  "is_space c = (let n = (of_char c :: nat) in
     (9 \<le> n \<and> n \<le> 13) \<or> (28 \<le> n \<and> n \<le> 32) \<or> n = 133 \<or> n = 160)"

definition is_digit :: "char \<Rightarrow> bool" where
  "is_digit c = (let n = (of_char c :: nat) in 48 \<le> n \<and> n \<le> 57)"

definition lstrip :: "string \<Rightarrow> string" where
  "lstrip s = dropWhile is_space s"

definition rstrip :: "string \<Rightarrow> string" where
  "rstrip s = rev (dropWhile is_space (rev s))"

text \<open>\<^verbatim>\<open>s.strip()\<close>\<close>

definition strip :: "string \<Rightarrow> string" where
  "strip s = rstrip (lstrip s)"

text \<open>\<^verbatim>\<open>s.replace('\n', ' ')\<close>\<close>

definition replace_newlines :: "string \<Rightarrow> string" where
  "replace_newlines s = map (\<lambda>c. if c = CHR 0x0A then CHR '' '' else c) s"

text \<open>
  \<^verbatim>\<open>re.sub(r'\s+', ' ', s)\<close>: scanning from the left, every maximal run of whitespace
  is replaced by one space.
\<close>

function normalize_whitespace :: "string \<Rightarrow> string" where
  "normalize_whitespace [] = []"
| "normalize_whitespace (c # cs) =
     (if is_space c then CHR '' '' # normalize_whitespace (dropWhile is_space cs)
      else c # normalize_whitespace cs)"
  by pat_completeness auto
termination
  by (relation "measure length") (auto simp: less_Suc_eq_le length_dropWhile_le)

text \<open>\<^verbatim>\<open>s.split('/')\<close>: the segments between slashes, never an empty list.\<close>

fun split_slash :: "string \<Rightarrow> string list" where
  "split_slash [] = [[]]"
| "split_slash (c # cs) =
     (case split_slash cs of
        [] \<Rightarrow> [[]]
      | seg # segs \<Rightarrow> if c = CHR ''/'' then [] # seg # segs else (c # seg) # segs)"

text \<open>\<^verbatim>\<open>needle in s\<close> for strings.\<close>

fun starts_with :: "string \<Rightarrow> string \<Rightarrow> bool" where
  "starts_with [] s = True"
| "starts_with (p # ps) [] = False"
| "starts_with (p # ps) (c # cs) = (p = c \<and> starts_with ps cs)"

fun contains :: "string \<Rightarrow> string \<Rightarrow> bool" where
  "contains needle [] = (needle = [])"
| "contains needle (c # cs) = (starts_with needle (c # cs) \<or> contains needle cs)"

text \<open>
  \<^verbatim>\<open>re.sub(r'v\d+$', '', s)\<close>. The pattern matches a \<^verbatim>\<open>v\<close> followed by digits only up
  to the end of the string; \<^verbatim>\<open>$\<close> also matches just before a newline that ends the
  string, and that newline stays. At most one place matches, and it is cut out.
\<close>

definition version_suffix :: "string \<Rightarrow> bool" where
  "version_suffix s = (case s of [] \<Rightarrow> False | c # ds \<Rightarrow> c = CHR ''v'' \<and> ds \<noteq> [] \<and> list_all is_digit ds)"

fun strip_to_end :: "string \<Rightarrow> string" where
  "strip_to_end [] = []"
| "strip_to_end (c # cs) = (if version_suffix (c # cs) then [] else c # strip_to_end cs)"

definition strip_version :: "string \<Rightarrow> string" where
  "strip_version s =
     (if s \<noteq> [] \<and> last s = CHR 0x0A \<and> strip_to_end (butlast s) \<noteq> butlast s
      then strip_to_end (butlast s) @ [CHR 0x0A]
      else strip_to_end s)"

subsection \<open>The client and its rate limiter\<close>

text \<open>
  The fields of \<^verbatim>\<open>ArxivClient\<close> that \<^verbatim>\<open>__init__\<close> sets. \<open>cache_dir\<close> is \<open>None\<close> when
  caching is off; \<open>cache_ttl\<close> is the \<^verbatim>\<open>timedelta\<close> in seconds.
\<close>

record client =
  rate_limit_delay :: real
  last_request_time :: real
  max_retries :: int
  cache_dir :: "string option"
  cache_ttl :: real

definition new_client :: "real \<Rightarrow> string option \<Rightarrow> real \<Rightarrow> int \<Rightarrow> client" where
  "new_client delay dir ttl_hours retries =
     \<lparr> rate_limit_delay = delay, last_request_time = 0, max_retries = retries,
       cache_dir = (case dir of None \<Rightarrow> None | Some d \<Rightarrow> if d = [] then None else Some d),
       cache_ttl = 3600 * ttl_hours \<rparr>"

text \<open>
  \<^verbatim>\<open>_rate_limit\<close>. \<open>t\<close> is the first reading of the clock. The call sleeps
  \<open>delay - elapsed\<close> when \<open>elapsed < delay\<close>; \<open>lag\<close> is the time that passes on top of
  the sleep asked for until the second reading, which is stored. The result is the new
  client and the second reading.
\<close>

definition rate_limit_sleep :: "client \<Rightarrow> real \<Rightarrow> real" where
  "rate_limit_sleep c t =
     (let elapsed = t - last_request_time c
      in if elapsed < rate_limit_delay c then rate_limit_delay c - elapsed else 0)"

definition rate_limit :: "client \<Rightarrow> real \<Rightarrow> real \<Rightarrow> client \<times> real" where
  "rate_limit c t lag =
     (let t' = t + rate_limit_sleep c t + lag
      in (c\<lparr>last_request_time := t'\<rparr>, t'))"

text \<open>
  Consecutive calls: each element of the list is one call, given as the time \<open>gap\<close>
  between the return of the call before and the first clock reading of this one, and
  the \<open>lag\<close> of this call. The result lists the return times of the calls.
\<close>

fun rate_limit_calls :: "client \<Rightarrow> real \<Rightarrow> (real \<times> real) list \<Rightarrow> client \<times> real list" where
  "rate_limit_calls c t [] = (c, [])"
| "rate_limit_calls c t ((gap, lag) # rest) =
     (let (c', t') = rate_limit c (t + gap) lag;
          (c'', ts) = rate_limit_calls c' t' rest
      in (c'', t' # ts))"

subsection \<open>The cache\<close>

text \<open>Exceptions of the client, and of the library calls it does not catch.\<close>

datatype error =
    ValueError
  | TypeError
  | AttributeError
  | HTTPError int
  | ApiError string
  | RequestTimedOut int
  | ConnectionFailed int
  | ParseFailed
  | FailedAfter int

text \<open>
  What a cache file can hold, as \<^verbatim>\<open>_get_cached\<close> reads it: text that is not JSON
  (\<^verbatim>\<open>JSONDecodeError\<close>), a JSON value that is not an object, or an object whose keys
  \<^verbatim>\<open>timestamp\<close> and \<^verbatim>\<open>results\<close> may be missing. A timestamp is an ISO string that
  \<^verbatim>\<open>datetime.fromisoformat\<close> reads as a time, a string it rejects, or no string.
  \<open>'r\<close> is the type of the stored results.
\<close>

datatype timestamp_field = IsoTime real | BadIsoString | NotAString

datatype 'r cache_file =
    NotJson
  | JsonNonObject
  | JsonObject "timestamp_field option" "'r option"

type_synonym 'r filesystem = "string \<Rightarrow> 'r cache_file option"

definition cache_path :: "string \<Rightarrow> string \<Rightarrow> string" where
  "cache_path dir cache_key = dir @ ''/'' @ cache_key @ ''.json''"

text \<open>
  \<^verbatim>\<open>_get_cached\<close>: \<^verbatim>\<open>JSONDecodeError\<close> and \<^verbatim>\<open>KeyError\<close> are caught and give \<open>None\<close>;
  the \<^verbatim>\<open>TypeError\<close> and \<^verbatim>\<open>ValueError\<close> of a malformed file are not caught.
\<close>

definition get_cached :: "client \<Rightarrow> 'r filesystem \<Rightarrow> real \<Rightarrow> string \<Rightarrow> error + 'r option" where
  "get_cached c fs now cache_key =
     (case cache_dir c of
        None \<Rightarrow> Inr None
      | Some dir \<Rightarrow>
          (case fs (cache_path dir cache_key) of
             None \<Rightarrow> Inr None
           | Some NotJson \<Rightarrow> Inr None
           | Some JsonNonObject \<Rightarrow> Inl TypeError
           | Some (JsonObject None res) \<Rightarrow> Inr None
           | Some (JsonObject (Some NotAString) res) \<Rightarrow> Inl TypeError
           | Some (JsonObject (Some BadIsoString) res) \<Rightarrow> Inl ValueError
           | Some (JsonObject (Some (IsoTime cached_time)) res) \<Rightarrow>
               if now - cached_time < cache_ttl c then Inr res else Inr None))"

text \<open>\<^verbatim>\<open>_set_cached\<close>\<close>

definition set_cached :: "client \<Rightarrow> 'r filesystem \<Rightarrow> real \<Rightarrow> string \<Rightarrow> 'r \<Rightarrow> 'r filesystem" where
  "set_cached c fs now cache_key results =
     (case cache_dir c of
        None \<Rightarrow> fs
      | Some dir \<Rightarrow>
          fs(cache_path dir cache_key \<mapsto> JsonObject (Some (IsoTime now)) (Some results)))"

subsection \<open>The cache key\<close>

text \<open>
  Request parameters: a \<^verbatim>\<open>dict\<close> from strings to strings and integers, as the list of
  its items in insertion order (the keys are distinct).
\<close>

datatype json = JStr string | JInt int

type_synonym params = "(string \<times> json) list"

text \<open>\<^verbatim>\<open>json.dumps\<close> with \<^verbatim>\<open>sort_keys=True\<close> and the default \<^verbatim>\<open>ensure_ascii\<close>.\<close>

definition hex_digit :: "nat \<Rightarrow> char" where
  "hex_digit n = ''0123456789abcdef'' ! (n mod 16)"

definition json_escape_char :: "char \<Rightarrow> string" where
  "json_escape_char c =
     (let n = (of_char c :: nat) in
      if c = CHR 0x22 then [CHR 0x5C, CHR 0x22]
      else if c = CHR 0x5C then [CHR 0x5C, CHR 0x5C]
      else if c = CHR 0x0A then [CHR 0x5C, CHR ''n'']
      else if c = CHR 0x0D then [CHR 0x5C, CHR ''r'']
      else if c = CHR 0x09 then [CHR 0x5C, CHR ''t'']
      else if c = CHR 0x08 then [CHR 0x5C, CHR ''b'']
      else if c = CHR 0x0C then [CHR 0x5C, CHR ''f'']
      else if 32 \<le> n \<and> n \<le> 126 then [c]
      else [CHR 0x5C, CHR ''u'', CHR ''0'', CHR ''0'', hex_digit (n div 16), hex_digit n])"

definition json_string :: "string \<Rightarrow> string" where
  "json_string s = [CHR 0x22] @ concat (map json_escape_char s) @ [CHR 0x22]"

function decimal :: "nat \<Rightarrow> string" where
  "decimal n = (if n < 10 then [hex_digit n] else decimal (n div 10) @ [hex_digit (n mod 10)])"
  by pat_completeness auto
termination
  by (relation "measure id") auto

declare decimal.simps [simp del]

definition json_int :: "int \<Rightarrow> string" where
  "json_int i = (if i < 0 then CHR ''-'' # decimal (nat (- i)) else decimal (nat i))"

fun json_value :: "json \<Rightarrow> string" where
  "json_value (JStr s) = json_string s"
| "json_value (JInt i) = json_int i"

definition json_item :: "string \<times> json \<Rightarrow> string" where
  "json_item kv = json_string (fst kv) @ '': '' @ json_value (snd kv)"

fun join :: "string \<Rightarrow> string list \<Rightarrow> string" where
  "join sep [] = []"
| "join sep [x] = x"
| "join sep (x # y # ys) = x @ sep @ join sep (y # ys)"

definition json_dumps :: "params \<Rightarrow> string" where
  "json_dumps ps = ''{'' @ join '', '' (map json_item (sort_key fst ps)) @ ''}''"

text \<open>
  \<^verbatim>\<open>hexdigest\<close>: the 128 bits of a digest as 32 hexadecimal digits.
\<close>

fun hex_width :: "nat \<Rightarrow> nat \<Rightarrow> string" where
  "hex_width 0 n = []"
| "hex_width (Suc k) n = hex_width k (n div 16) @ [hex_digit n]"

definition hexdigest :: "128 word \<Rightarrow> string" where
  "hexdigest w = hex_width 32 (unat w)"

text \<open>
  \<^verbatim>\<open>_get_cache_key\<close>. The MD5 function of \<^verbatim>\<open>hashlib\<close> is the parameter \<open>md5\<close>, from the
  text that is hashed to its 128-bit digest. The text is ASCII, so encoding it changes
  nothing.
\<close>

definition get_cache_key :: "(string \<Rightarrow> 128 word) \<Rightarrow> params \<Rightarrow> string" where
  "get_cache_key md5 ps = hexdigest (md5 (json_dumps ps))"

subsection \<open>Entries of the feed and their parsing\<close>

text \<open>
  An \<^verbatim>\<open>entry\<close> element of the Atom feed, as \<^verbatim>\<open>_parse_entry\<close> reads it. For a child
  that is looked up with \<^verbatim>\<open>find\<close>, the field is \<open>None\<close> when the child is absent and
  \<open>Some txt\<close> when it is present, \<open>txt\<close> being its \<^verbatim>\<open>.text\<close>: \<open>None\<close> for an element
  without text, \<open>Some s\<close> otherwise. An attribute read with \<^verbatim>\<open>get\<close> is \<open>None\<close> when it
  is not given.
\<close>

record author_elem =
  name_elem :: "string option option"
  affiliation_elem :: "string option option"

record link_elem =
  rel_attr :: "string option"
  href_attr :: "string option"
  type_attr :: "string option"

record entry =
  id_elem :: "string option option"
  title_elem :: "string option option"
  author_elems :: "author_elem list"
  summary_elem :: "string option option"
  published_elem :: "string option option"
  updated_elem :: "string option option"
  primary_category_elem :: "string option option"
  category_elems :: "string option list"
  link_elems :: "link_elem list"
  doi_elem :: "string option option"
  journal_ref_elem :: "string option option"
  comment_elem :: "string option option"

text \<open>
  The dictionary \<^verbatim>\<open>_parse_entry\<close> returns. A field that can hold \<^verbatim>\<open>None\<close> in the
  source is an option here; \<open>links\<close> is a dictionary, kept as the list of its items.
\<close>

record paper =
  arxiv_id :: string
  base_id :: string
  title :: string
  authors :: "string option list"
  affiliations :: "string option list"
  abstract :: string
  published :: string
  published_datetime :: "string option"
  updated :: string
  updated_datetime :: "string option"
  primary_category :: "string option"
  categories :: "string option list"
  doi :: "string option"
  journal_ref :: "string option"
  comment :: "string option"
  arxiv_url :: string
  pdf_url :: string
  links :: "(string \<times> string) list"

text \<open>
  The \<^verbatim>\<open>datetime\<close> library is a parameter: \<open>fromisoformat\<close> is \<open>None\<close> where the
  library raises \<^verbatim>\<open>ValueError\<close>, \<open>strftime_date\<close> is \<^verbatim>\<open>strftime('%Y-%m-%d')\<close>.
\<close>

record 'dt datetime_lib =
  fromisoformat :: "string \<Rightarrow> 'dt option"
  strftime_date :: "'dt \<Rightarrow> string"
  isoformat :: "'dt \<Rightarrow> string"

text \<open>\<^verbatim>\<open>d[k] = v\<close> on a dictionary: a key that is there keeps its place.\<close>

fun dict_set :: "('k \<times> 'v) list \<Rightarrow> 'k \<Rightarrow> 'v \<Rightarrow> ('k \<times> 'v) list" where
  "dict_set [] k v = [(k, v)]"
| "dict_set ((k', v') # d) k v = (if k' = k then (k, v) # d else (k', v') # dict_set d k v)"


text \<open>\<^verbatim>\<open>elem.text if elem is not None else ""\<close>\<close>

definition text_or_empty :: "string option option \<Rightarrow> string option" where
  "text_or_empty e = (case e of None \<Rightarrow> Some [] | Some txt \<Rightarrow> txt)"

text \<open>\<^verbatim>\<open>elem.text if elem is not None else None\<close>\<close>

definition text_or_none :: "string option option \<Rightarrow> string option" where
  "text_or_none e = (case e of None \<Rightarrow> None | Some txt \<Rightarrow> txt)"

text \<open>\<^verbatim>\<open>arxiv_url.split('/')[-1] if arxiv_url else ""\<close>\<close>

definition last_segment :: "string option \<Rightarrow> string" where
  "last_segment url =
     (case url of
        None \<Rightarrow> []
      | Some u \<Rightarrow> if u = [] then [] else last (split_slash u))"

text \<open>
  The title and the abstract: \<^verbatim>\<open>.text.strip()\<close> on an element without text raises
  \<^verbatim>\<open>AttributeError\<close>.
\<close>

definition parse_title :: "string option option \<Rightarrow> error + string" where
  "parse_title e =
     (case e of
        None \<Rightarrow> Inr (normalize_whitespace [])
      | Some None \<Rightarrow> Inl AttributeError
      | Some (Some t) \<Rightarrow> Inr (normalize_whitespace (replace_newlines (strip t))))"

definition parse_abstract :: "string option option \<Rightarrow> error + string" where
  "parse_abstract e =
     (case e of
        None \<Rightarrow> Inr (normalize_whitespace [])
      | Some None \<Rightarrow> Inl AttributeError
      | Some (Some t) \<Rightarrow> Inr (normalize_whitespace (strip t)))"

text \<open>The loop over the \<^verbatim>\<open>author\<close> elements.\<close>

definition author_names :: "author_elem list \<Rightarrow> string option list" where
  "author_names as = concat (map (\<lambda>a. case name_elem a of None \<Rightarrow> [] | Some txt \<Rightarrow> [txt]) as)"

definition author_affiliations :: "author_elem list \<Rightarrow> string option list" where
  "author_affiliations as =
     concat (map (\<lambda>a. case affiliation_elem a of None \<Rightarrow> [] | Some txt \<Rightarrow> [txt]) as)"

text \<open>
  A date: \<^verbatim>\<open>datetime.fromisoformat(text.replace('Z', '+00:00'))\<close>, with \<^verbatim>\<open>ValueError\<close>
  caught. An element without text raises \<^verbatim>\<open>AttributeError\<close> at \<^verbatim>\<open>replace\<close>. The
  library rejects the empty string; on every other string the parameter decides.
\<close>

definition replace_Z :: "string \<Rightarrow> string" where
  "replace_Z s = concat (map (\<lambda>c. if c = CHR ''Z'' then ''+00:00'' else [c]) s)"

definition parse_date :: "'dt datetime_lib \<Rightarrow> string option option \<Rightarrow> error + 'dt option" where
  "parse_date L e =
     (case text_or_empty e of
        None \<Rightarrow> Inl AttributeError
      | Some s \<Rightarrow> Inr (if replace_Z s = [] then None else fromisoformat L (replace_Z s)))"

text \<open>The body of the loop over the \<^verbatim>\<open>link\<close> elements, and the loop.\<close>

definition add_link :: "(string \<times> string) list \<Rightarrow> link_elem \<Rightarrow> (string \<times> string) list" where
  "add_link d l =
     (let rel = (case rel_attr l of None \<Rightarrow> ''alternate'' | Some r \<Rightarrow> r);
          href = (case href_attr l of None \<Rightarrow> [] | Some h \<Rightarrow> h);
          link_type = (case type_attr l of None \<Rightarrow> [] | Some t \<Rightarrow> t)
      in if link_type = ''application/pdf'' then dict_set d ''pdf'' href
         else if rel = ''alternate'' then dict_set d ''abstract'' href
         else dict_set d rel href)"

definition parse_links :: "link_elem list \<Rightarrow> (string \<times> string) list" where
  "parse_links ls = foldl add_link [] ls"

text \<open>\<^verbatim>\<open>_parse_entry\<close>, its statements in the order of the source.\<close>

definition parse_entry :: "'dt datetime_lib \<Rightarrow> entry \<Rightarrow> error + paper" where
  "parse_entry L e =
     (let arxiv_id' = last_segment (text_or_empty (id_elem e));
          base_id' = strip_version arxiv_id'
      in case parse_title (title_elem e) of
           Inl err \<Rightarrow> Inl err
         | Inr title' \<Rightarrow>
      (case parse_abstract (summary_elem e) of
           Inl err \<Rightarrow> Inl err
         | Inr abstract' \<Rightarrow>
      (case parse_date L (published_elem e) of
           Inl err \<Rightarrow> Inl err
         | Inr published_dt \<Rightarrow>
      (case parse_date L (updated_elem e) of
           Inl err \<Rightarrow> Inl err
         | Inr updated_dt \<Rightarrow>
           Inr \<lparr> arxiv_id = arxiv_id',
                 base_id = base_id',
                 title = title',
                 authors = author_names (author_elems e),
                 affiliations = author_affiliations (author_elems e),
                 abstract = abstract',
                 published = (case published_dt of None \<Rightarrow> [] | Some d \<Rightarrow> strftime_date L d),
                 published_datetime = map_option (isoformat L) published_dt,
                 updated = (case updated_dt of None \<Rightarrow> [] | Some d \<Rightarrow> strftime_date L d),
                 updated_datetime = map_option (isoformat L) updated_dt,
                 primary_category =
                   (case primary_category_elem e of None \<Rightarrow> Some [] | Some term_attr \<Rightarrow> term_attr),
                 categories = category_elems e,
                 doi = text_or_none (doi_elem e),
                 journal_ref = text_or_none (journal_ref_elem e),
                 comment = text_or_none (comment_elem e),
                 arxiv_url = ''https://arxiv.org/abs/'' @ base_id',
                 pdf_url = ''https://arxiv.org/pdf/'' @ base_id' @ ''.pdf'',
                 links = parse_links (link_elems e) \<rparr>))))"

text \<open>\<^verbatim>\<open>[self._parse_entry(entry) for entry in entries]\<close>: the first exception ends it.\<close>

fun parse_entries :: "'dt datetime_lib \<Rightarrow> entry list \<Rightarrow> error + paper list" where
  "parse_entries L [] = Inr []"
| "parse_entries L (e # es) =
     (case parse_entry L e of
        Inl err \<Rightarrow> Inl err
      | Inr p \<Rightarrow> (case parse_entries L es of Inl err \<Rightarrow> Inl err | Inr ps \<Rightarrow> Inr (p # ps)))"

subsection \<open>Requests with retries\<close>

text \<open>
  What \<^verbatim>\<open>requests.get\<close> does on one attempt: it raises \<^verbatim>\<open>Timeout\<close> or
  \<^verbatim>\<open>ConnectionError\<close>, or it returns a response with a status code and a content.
  The content is \<open>None\<close> when \<^verbatim>\<open>ET.fromstring\<close> raises \<^verbatim>\<open>ParseError\<close> on it, and
  the list of the \<^verbatim>\<open>entry\<close> elements of the feed otherwise.
\<close>

datatype http_outcome = Timeout | ConnectionError | Response int "entry list option"

text \<open>
  The effects of a call, in the order they happen: a sleep of the rate limiter, a
  request sent with its parameters, a sleep of the retry loop.
\<close>

datatype event = RateLimitSleep real | HttpGet params | BackoffSleep nat

record world =
  clock :: real
  files :: "paper list filesystem"
  trace :: "event list"

fun is_get :: "event \<Rightarrow> bool" where
  "is_get (HttpGet ps) = True"
| "is_get ev = False"

definition sent :: "world \<Rightarrow> nat" where
  "sent w = length (filter is_get (trace w))"

fun backoff_of :: "event \<Rightarrow> nat list" where
  "backoff_of (BackoffSleep n) = [n]"
| "backoff_of ev = []"

definition backoff_sleeps :: "event list \<Rightarrow> nat list" where
  "backoff_sleeps tr = concat (map backoff_of tr)"

text \<open>
  The environment of the client: the \<^verbatim>\<open>datetime\<close> library, MD5, and the network. The
  network answers the \<open>n\<close>-th request that is sent (counting from 0) with the time the
  request takes and its outcome.
\<close>

record 'dt env =
  dates :: "'dt datetime_lib"
  md5_digest :: "string \<Rightarrow> 128 word"
  network :: "nat \<Rightarrow> params \<Rightarrow> real \<times> http_outcome"

text \<open>
  The check for an error response: one entry whose title has a text that contains
  \<^verbatim>\<open>Error\<close>.
\<close>

definition api_error :: "entry list \<Rightarrow> string option" where
  "api_error entries =
     (case entries of
        [e] \<Rightarrow>
          (case title_elem e of
             Some (Some t) \<Rightarrow> if t \<noteq> [] \<and> contains ''Error'' t then Some t else None
           | _ \<Rightarrow> None)
      | _ \<Rightarrow> None)"

text \<open>\<^verbatim>\<open>time.sleep(2 ** attempt)\<close>\<close>

definition backoff :: "world \<Rightarrow> nat \<Rightarrow> world" where
  "backoff w attempt =
     w\<lparr>clock := clock w + 2 ^ attempt, trace := trace w @ [BackoffSleep (2 ^ attempt)]\<rparr>"

text \<open>
  One pass through the body of the \<^verbatim>\<open>for\<close> loop of \<^verbatim>\<open>_make_request\<close>: it returns,
  raises, or falls through to the next attempt. \<^verbatim>\<open>raise_for_status\<close> raises for a
  status from 400 on and does nothing below.
\<close>

datatype 'a step = Return 'a | Raise error | Continue

definition send :: "'dt env \<Rightarrow> params \<Rightarrow> client \<Rightarrow> world \<Rightarrow> http_outcome \<times> client \<times> world" where
  "send E ps c w =
     (let (c1, t1) = rate_limit c (clock w) 0;
          (latency, outcome) = network E (sent w) ps
      in (outcome, c1,
          w\<lparr>clock := t1 + latency,
            trace := trace w
              @ (if clock w - last_request_time c < rate_limit_delay c
                 then [RateLimitSleep (rate_limit_sleep c (clock w))] else [])
              @ [HttpGet ps]\<rparr>))"

definition attempt_request ::
  "'dt env \<Rightarrow> params \<Rightarrow> string \<Rightarrow> nat \<Rightarrow> client \<Rightarrow> world \<Rightarrow> paper list step \<times> client \<times> world" where
  "attempt_request E ps cache_key attempt c w =
     (let (outcome, c1, w1) = send E ps c w
      in case outcome of
           Response status content \<Rightarrow>
             if status = 200 then
               (case content of
                  None \<Rightarrow> (Raise ParseFailed, c1, w1)
                | Some entries \<Rightarrow>
                    (case api_error entries of
                       Some t \<Rightarrow> (Raise (ApiError t), c1, w1)
                     | None \<Rightarrow>
                         (case parse_entries (dates E) entries of
                            Inl err \<Rightarrow> (Raise err, c1, w1)
                          | Inr papers \<Rightarrow>
                              (Return papers, c1,
                               w1\<lparr>files := set_cached c1 (files w1) (clock w1) cache_key papers\<rparr>))))
             else if status \<ge> 500 then (Continue, c1, backoff w1 attempt)
             else if status \<ge> 400 then (Raise (HTTPError status), c1, w1)
             else (Continue, c1, w1)
         | Timeout \<Rightarrow>
             if int attempt < max_retries c1 - 1 then (Continue, c1, backoff w1 attempt)
             else (Raise (RequestTimedOut (max_retries c1)), c1, w1)
         | ConnectionError \<Rightarrow>
             if int attempt < max_retries c1 - 1 then (Continue, c1, backoff w1 attempt)
             else (Raise (ConnectionFailed (max_retries c1)), c1, w1))"

text \<open>
  The loop \<^verbatim>\<open>for attempt in range(self.max_retries)\<close>, with the number of attempts
  that remain, and the \<^verbatim>\<open>raise\<close> after it.
\<close>

fun request_loop ::
  "'dt env \<Rightarrow> params \<Rightarrow> string \<Rightarrow> nat \<Rightarrow> nat \<Rightarrow> client \<Rightarrow> world
     \<Rightarrow> (error + paper list) \<times> client \<times> world" where
  "request_loop E ps cache_key 0 attempt c w = (Inl (FailedAfter (max_retries c)), c, w)"
| "request_loop E ps cache_key (Suc remaining) attempt c w =
     (case attempt_request E ps cache_key attempt c w of
        (Return papers, c', w') \<Rightarrow> (Inr papers, c', w')
      | (Raise err, c', w') \<Rightarrow> (Inl err, c', w')
      | (Continue, c', w') \<Rightarrow> request_loop E ps cache_key remaining (Suc attempt) c' w')"

text \<open>\<^verbatim>\<open>_make_request\<close>\<close>

definition make_request ::
  "'dt env \<Rightarrow> client \<Rightarrow> world \<Rightarrow> params \<Rightarrow> (error + paper list) \<times> client \<times> world" where
  "make_request E c w ps =
     (let cache_key = get_cache_key (md5_digest E) ps
      in case get_cached c (files w) (clock w) cache_key of
           Inl err \<Rightarrow> (Inl err, c, w)
         | Inr (Some cached) \<Rightarrow> (Inr cached, c, w)
         | Inr None \<Rightarrow> request_loop E ps cache_key (nat (max_retries c)) 0 c w)"

subsection \<open>The operations of the client\<close>

text \<open>\<^verbatim>\<open>search\<close>\<close>

definition search_params :: "string \<Rightarrow> int \<Rightarrow> string \<Rightarrow> string \<Rightarrow> int \<Rightarrow> params" where
  "search_params query max_results sort_by sort_order start =
     [(''search_query'', JStr query), (''start'', JInt start),
      (''max_results'', JInt (min max_results 2000)),
      (''sortBy'', JStr sort_by), (''sortOrder'', JStr sort_order)]"

definition search ::
  "'dt env \<Rightarrow> string \<Rightarrow> int \<Rightarrow> string \<Rightarrow> string \<Rightarrow> int \<Rightarrow> client \<times> world
     \<Rightarrow> (error + paper list) \<times> client \<times> world" where
  "search E query max_results sort_by sort_order start cw =
     make_request E (fst cw) (snd cw) (search_params query max_results sort_by sort_order start)"

text \<open>
  \<^verbatim>\<open>paginate_all\<close>. The method calls \<^verbatim>\<open>self.search\<close> with the page size and the
  offset and reads the list it returns; the loop is stated for any such search over any
  state, and the method is the loop over the search of the client. \<^verbatim>\<open>max_results\<close> is
  tested for truth, so 0 counts as not given. The loop has no bound: where it does not
  end, the result is \<open>None\<close>.
\<close>

definition slice_to :: "int \<Rightarrow> 'a list \<Rightarrow> 'a list" where
  "slice_to m xs = (if 0 \<le> m then take (nat m) xs else take (nat (int (length xs) + m)) xs)"

definition reached :: "int option \<Rightarrow> nat \<Rightarrow> bool" where
  "reached max_results n = (case max_results of None \<Rightarrow> False | Some m \<Rightarrow> m \<noteq> 0 \<and> m \<le> int n)"

partial_function (option) paginate_loop ::
  "(int \<Rightarrow> int \<Rightarrow> 's \<Rightarrow> (error + 'a list) \<times> 's) \<Rightarrow> int option \<Rightarrow> int
     \<Rightarrow> 'a list \<Rightarrow> int \<Rightarrow> 's \<Rightarrow> ((error + 'a list) \<times> 's) option" where
  "paginate_loop search_fn max_results page_size all_papers start st =
     (case search_fn page_size start st of
        (Inl err, st') \<Rightarrow> Some (Inl err, st')
      | (Inr results, st') \<Rightarrow>
          if results = [] then Some (Inr all_papers, st')
          else if reached max_results (length (all_papers @ results))
          then Some (Inr (slice_to (the max_results) (all_papers @ results)), st')
          else if int (length results) < page_size then Some (Inr (all_papers @ results), st')
          else paginate_loop search_fn max_results page_size (all_papers @ results)
                 (start + page_size) st')"

definition paginate_all ::
  "'dt env \<Rightarrow> string \<Rightarrow> int option \<Rightarrow> string \<Rightarrow> string \<Rightarrow> int \<Rightarrow> client \<times> world
     \<Rightarrow> ((error + paper list) \<times> client \<times> world) option" where
  "paginate_all E query max_results sort_by sort_order page_size cw =
     paginate_loop (\<lambda>size start. search E query size sort_by sort_order start)
       max_results page_size [] 0 cw"

text \<open>
  \<^verbatim>\<open>_clean_arxiv_id\<close>. \<^verbatim>\<open>re.search(r'/(\d{4}\.\d{4,5})', s)\<close> takes the first slash
  after which the pattern matches: four digits, a dot, and four digits or five when a
  fifth is there. \<^verbatim>\<open>re.search(r'/([a-z-]+/\d{7})', s)\<close> takes the first slash that is
  followed by a run of lower-case letters and hyphens, a slash and seven digits; the
  run has to be the longest one, for only a slash may follow it.
\<close>

definition match_new_id :: "string \<Rightarrow> string option" where
  "match_new_id s =
     (if length (take 4 s) = 4 \<and> list_all is_digit (take 4 s) then
        (case drop 4 s of
           [] \<Rightarrow> None
         | c # r \<Rightarrow>
             if c = CHR ''.'' \<and> 4 \<le> length (takeWhile is_digit (take 5 r))
             then Some (take 4 s @ ''.'' @ takeWhile is_digit (take 5 r))
             else None)
      else None)"

fun search_new_id :: "string \<Rightarrow> string option" where
  "search_new_id [] = None"
| "search_new_id (c # cs) =
     (if c = CHR ''/'' then (case match_new_id cs of Some g \<Rightarrow> Some g | None \<Rightarrow> search_new_id cs)
      else search_new_id cs)"

definition is_category_char :: "char \<Rightarrow> bool" where
  "is_category_char c = ((CHR ''a'' \<le> c \<and> c \<le> CHR ''z'') \<or> c = CHR ''-'')"

definition match_old_id :: "string \<Rightarrow> string option" where
  "match_old_id s =
     (let cat = takeWhile is_category_char s
      in if cat = [] then None
         else (case dropWhile is_category_char s of
                 [] \<Rightarrow> None
               | c # r \<Rightarrow>
                   if c = CHR ''/'' \<and> length (take 7 r) = 7 \<and> list_all is_digit (take 7 r)
                   then Some (cat @ ''/'' @ take 7 r)
                   else None))"

fun search_old_id :: "string \<Rightarrow> string option" where
  "search_old_id [] = None"
| "search_old_id (c # cs) =
     (if c = CHR ''/'' then (case match_old_id cs of Some g \<Rightarrow> Some g | None \<Rightarrow> search_old_id cs)
      else search_old_id cs)"

definition clean_arxiv_id :: "string \<Rightarrow> string" where
  "clean_arxiv_id s =
     (if contains ''arxiv.org'' s then
        (case search_new_id s of
           Some g \<Rightarrow> g
         | None \<Rightarrow> (case search_old_id s of Some g \<Rightarrow> g | None \<Rightarrow> strip_version s))
      else strip_version s)"

text \<open>\<^verbatim>\<open>get_paper\<close> and \<^verbatim>\<open>get_papers\<close>, with the parameters they send.\<close>

definition get_paper_params :: "string \<Rightarrow> params" where
  "get_paper_params ident = [(''id_list'', JStr (clean_arxiv_id ident)), (''max_results'', JInt 1)]"

definition get_paper ::
  "'dt env \<Rightarrow> client \<Rightarrow> world \<Rightarrow> string \<Rightarrow> (error + paper option) \<times> client \<times> world" where
  "get_paper E c w ident =
     (case make_request E c w (get_paper_params ident) of
        (Inl err, c', w') \<Rightarrow> (Inl err, c', w')
      | (Inr results, c', w') \<Rightarrow> (Inr (case results of [] \<Rightarrow> None | p # ps \<Rightarrow> Some p), c', w'))"

definition get_papers_params :: "string list \<Rightarrow> params" where
  "get_papers_params idents =
     [(''id_list'', JStr (join '','' (map clean_arxiv_id idents))),
      (''max_results'', JInt (int (length (map clean_arxiv_id idents))))]"

definition get_papers ::
  "'dt env \<Rightarrow> client \<Rightarrow> world \<Rightarrow> string list \<Rightarrow> (error + paper list) \<times> client \<times> world" where
  "get_papers E c w idents = make_request E c w (get_papers_params idents)"

text \<open>An entry without any child element.\<close>

definition empty_entry :: entry where
  "empty_entry =
     \<lparr> id_elem = None, title_elem = None, author_elems = [], summary_elem = None,
       published_elem = None, updated_elem = None, primary_category_elem = None,
       category_elems = [], link_elems = [], doi_elem = None, journal_ref_elem = None,
       comment_elem = None \<rparr>"






text \<open>
  Two shapes of identifiers that the patterns of \<^verbatim>\<open>_clean_arxiv_id\<close> accept: a
  new-style identifier is four digits, a dot, and four or five digits; a plain
  old-style identifier is an archive name without a subject class, that is a run of
  lower-case letters and hyphens that is not empty, then a slash and seven digits. An
  old-style identifier with a subject class, such as \<^verbatim>\<open>math.GT/0309136\<close>, is not plain.
  A version marker is a \<^verbatim>\<open>v\<close> followed by digits, which is \<open>version_suffix\<close>.
\<close>

definition new_style_id :: "string \<Rightarrow> bool" where
  "new_style_id i =
     ((length i = 9 \<or> length i = 10) \<and> list_all is_digit (take 4 i) \<and> i ! 4 = CHR ''.''
      \<and> list_all is_digit (drop 5 i))"

definition plain_old_style_id :: "string \<Rightarrow> bool" where
  "plain_old_style_id i =
     (takeWhile is_category_char i \<noteq> []
      \<and> (case dropWhile is_category_char i of
            [] \<Rightarrow> False
          | c # d \<Rightarrow> c = CHR ''/'' \<and> length d = 7 \<and> list_all is_digit d))"


text \<open>
  The failures of an attempt, as the specification sorts them. A transient failure is a
  timeout, a connection error or a status from 500 on. The failures that are final are
  a status of the class 4xx, a content of a response with status 200 that does not
  parse, and such a content with one entry whose title signals an error; each comes
  with the exception the client raises for it.
\<close>

fun transient :: "http_outcome \<Rightarrow> bool" where
  "transient Timeout = True"
| "transient ConnectionError = True"
| "transient (Response status content) = (status \<ge> 500)"

fun final_failure :: "http_outcome \<Rightarrow> error option" where
  "final_failure Timeout = None"
| "final_failure ConnectionError = None"
| "final_failure (Response status content) =
     (if status = 200 then
        (case content of
           None \<Rightarrow> Some ParseFailed
         | Some entries \<Rightarrow> (case api_error entries of None \<Rightarrow> None | Some t \<Rightarrow> Some (ApiError t)))
      else if 400 \<le> status \<and> status < 500 then Some (HTTPError status)
      else None)"

text \<open>A response with status 200 whose entries parse to the given papers.\<close>

fun succeeds :: "'dt datetime_lib \<Rightarrow> http_outcome \<Rightarrow> paper list \<Rightarrow> bool" where
  "succeeds L (Response status (Some entries)) papers =
     (status = 200 \<and> api_error entries = None \<and> parse_entries L entries = Inr papers)"
| "succeeds L outcome papers = False"

text \<open>The sleeps of the retry loop after \<open>k\<close> failures: 1, 2, 4 and so on.\<close>

definition doubling :: "nat \<Rightarrow> nat list" where
  "doubling k = map (\<lambda>i. 2 ^ i) [0..<k]"

section \<open>Properties\<close>

subsection \<open>The rate limiter\<close>

lemma rate_limit_return:
  assumes "0 \<le> lag" and "rate_limit c t lag = (c', t')"
  shows "last_request_time c' = t'" and "rate_limit_delay c' = rate_limit_delay c"
    and "last_request_time c + rate_limit_delay c \<le> t'" and "t \<le> t'"
  using assms by (auto simp: rate_limit_def rate_limit_sleep_def Let_def split: if_splits)

lemma rate_limit_calls_spaced:
  assumes "list_all (\<lambda>(gap, lag). 0 \<le> gap \<and> 0 \<le> lag) calls"
    and "rate_limit_calls c t calls = (c', ts)"
  shows "length ts = length calls \<and> rate_limit_delay c' = rate_limit_delay c
    \<and> (ts \<noteq> [] \<longrightarrow> last_request_time c + rate_limit_delay c \<le> hd ts \<and> t + fst (hd calls) \<le> hd ts
          \<and> last_request_time c' = last ts)
    \<and> (\<forall>i. Suc i < length ts \<longrightarrow> ts ! i + rate_limit_delay c \<le> ts ! Suc i)"
  using assms
proof (induction calls arbitrary: c t c' ts)
  case Nil
  then show ?case by simp
next
  case (Cons call rest)
  obtain gap lag where call: "call = (gap, lag)" by (cases call)
  obtain c1 t1 where r1: "rate_limit c (t + gap) lag = (c1, t1)" by (cases "rate_limit c (t + gap) lag")
  obtain c2 ts2 where r2: "rate_limit_calls c1 t1 rest = (c2, ts2)" by (cases "rate_limit_calls c1 t1 rest")
  from Cons.prems(2) call r1 r2 have eq: "c' = c2" "ts = t1 # ts2" by auto
  from Cons.prems(1) call have nn: "0 \<le> gap" "0 \<le> lag"
    and rest: "list_all (\<lambda>(gap, lag). 0 \<le> gap \<and> 0 \<le> lag) rest" by auto
  note one = rate_limit_return [OF nn(2) r1]
  note ih = Cons.IH [OF rest r2]
  have sp: "ts ! i + rate_limit_delay c \<le> ts ! Suc i" if "Suc i < length ts" for i
  proof (cases i)
    case 0
    with that eq have "ts2 \<noteq> []" by auto
    with ih one have "t1 + rate_limit_delay c \<le> hd ts2" by simp
    with 0 eq \<open>ts2 \<noteq> []\<close> show ?thesis by (simp add: hd_conv_nth)
  next
    case (Suc j)
    with that eq have "Suc j < length ts2" by simp
    with ih one have "ts2 ! j + rate_limit_delay c \<le> ts2 ! Suc j" by simp
    with Suc eq show ?thesis by simp
  qed
  have lst: "last_request_time c' = last ts"
  proof (cases "ts2 = []")
    case True
    with r2 have "rest = []" using ih by auto
    with r2 have "c2 = c1" by simp
    with True eq one show ?thesis by simp
  next
    case False
    with ih eq show ?thesis by simp
  qed
  from one nn have "t + gap \<le> t1" by simp
  with ih one eq call sp lst show ?case by auto
qed

lemma spaced_total:
  fixes ts :: "real list"
  assumes "ts \<noteq> []" and "\<forall>i. Suc i < length ts \<longrightarrow> ts ! i + d \<le> ts ! Suc i"
  shows "hd ts + real (length ts - 1) * d \<le> last ts"
  using assms
proof (induction ts rule: rev_nonempty_induct)
  case (single x)
  then show ?case by simp
next
  case (snoc x xs)
  have "\<forall>i. Suc i < length xs \<longrightarrow> xs ! i + d \<le> xs ! Suc i"
  proof (intro allI impI)
    fix i assume a: "Suc i < length xs"
    with snoc.prems have "(xs @ [x]) ! i + d \<le> (xs @ [x]) ! Suc i" by simp
    with a show "xs ! i + d \<le> xs ! Suc i" by (simp add: nth_append)
  qed
  with snoc.IH have ih: "hd xs + real (length xs - 1) * d \<le> last xs" by simp
  from snoc.hyps obtain n where n: "length xs = Suc n" by (cases xs) auto
  with snoc.prems have "(xs @ [x]) ! n + d \<le> (xs @ [x]) ! Suc n" by simp
  with n snoc.hyps have "last xs + d \<le> x" by (simp add: nth_append last_conv_nth)
  with ih n snoc.hyps show ?case by (simp add: algebra_simps)
qed

text \<open>
  Claim C3. Take any number of consecutive calls of \<^verbatim>\<open>_rate_limit\<close>, on a clock that
  does not run backwards and with sleeps that last at least as long as asked (the gaps
  and lags are not negative). Then every call returns at least \<open>rate_limit_delay\<close>
  after the time the call before it stored on its return, the first one at least that
  long after the stored time it starts from; each call stores the time of its own
  return, so the spacing is measured from the latest request and not from a schedule;
  and \<open>N\<close> calls take at least \<open>(N - 1) * rate_limit_delay\<close> from the start of the first
  to the return of the last.
\<close>

theorem rate_limit_min_spacing:
  assumes "list_all (\<lambda>(gap, lag). 0 \<le> gap \<and> 0 \<le> lag) calls"
    and "calls \<noteq> []"
    and "rate_limit_calls c t calls = (c', ts)"
  shows "length ts = length calls
    \<and> last_request_time c + rate_limit_delay c \<le> hd ts
    \<and> (\<forall>i. Suc i < length ts \<longrightarrow> ts ! i + rate_limit_delay c \<le> ts ! Suc i)
    \<and> last_request_time c' = last ts
    \<and> real (length calls - 1) * rate_limit_delay c \<le> last ts - (t + fst (hd calls))"
proof -
  note sp = rate_limit_calls_spaced [OF assms(1,3)]
  from sp assms(2) have ne: "ts \<noteq> []" by auto
  have 3: "\<forall>i. Suc i < length ts \<longrightarrow> ts ! i + rate_limit_delay c \<le> ts ! Suc i" using sp by simp
  from spaced_total [OF ne 3] have "hd ts + real (length ts - 1) * rate_limit_delay c \<le> last ts" .
  moreover from sp ne have "t + fst (hd calls) \<le> hd ts" by simp
  moreover from sp have "length ts = length calls" by simp
  ultimately have "real (length calls - 1) * rate_limit_delay c \<le> last ts - (t + fst (hd calls))"
    by simp
  with sp ne 3 show ?thesis by simp
qed

theorem rate_limit_min_spacing_witness:
  "list_all (\<lambda>(gap, lag). 0 \<le> gap \<and> 0 \<le> lag) ([(0, 0), (1, 1 / 2), (5, 0)] :: (real \<times> real) list)
   \<and> rate_limit_calls (new_client 3 None 24 3) 1000 [(0, 0), (1, 1 / 2), (5, 0)]
       = ((new_client 3 None 24 3)\<lparr>last_request_time := 2017 / 2\<rparr>, [1000, 2007 / 2, 2017 / 2])
   \<and> real (length ([(0, 0), (1, 1 / 2), (5, 0)] :: (real \<times> real) list) - 1) * rate_limit_delay (new_client 3 None 24 3)
       \<le> last [1000, 2007 / 2, 2017 / 2] - (1000 + fst (hd ([(0, 0), (1, 1 / 2), (5, 0)] :: (real \<times> real) list)))"
proof -
  have h1: "list_all (\<lambda>(gap, lag). 0 \<le> gap \<and> 0 \<le> lag) ([(0, 0), (1, 1 / 2), (5, 0)] :: (real \<times> real) list)"
    by simp
  have h2: "([(0, 0), (1, 1 / 2), (5, 0)] :: (real \<times> real) list) \<noteq> []" by simp
  have h3: "rate_limit_calls (new_client 3 None 24 3) 1000 [(0, 0), (1, 1 / 2), (5, 0)]
       = ((new_client 3 None 24 3)\<lparr>last_request_time := 2017 / 2\<rparr>, [1000, 2007 / 2, 2017 / 2])"
    by (simp add: new_client_def rate_limit_def rate_limit_sleep_def Let_def)
  from rate_limit_min_spacing [OF h1 h2 h3] h1 h3 show ?thesis by simp
qed

subsection \<open>The cache\<close>

text \<open>
  Claim C4. With a cache directory, \<^verbatim>\<open>_get_cached\<close> returns records exactly when the
  file of the key holds a valid entry (a timestamp that reads as a time, and results)
  whose age \<open>now - timestamp\<close> is strictly below the time to live. So a \<^verbatim>\<open>_set_cached\<close>
  followed by a \<^verbatim>\<open>_get_cached\<close> before the time to live has passed (at once, when the
  time to live is positive) returns the records that were stored, and one that comes
  when the time to live has passed returns \<open>None\<close>, as it does when the file is
  missing. Without a cache directory \<^verbatim>\<open>_get_cached\<close> returns \<open>None\<close> and \<^verbatim>\<open>_set_cached\<close>
  leaves the files as they are.
\<close>

theorem cache_get_put:
  "(cache_dir c = Some dir \<longrightarrow>
      (get_cached c fs now key = Inr (Some rs)
         \<longleftrightarrow> (\<exists>t. fs (cache_path dir key) = Some (JsonObject (Some (IsoTime t)) (Some rs))
                  \<and> now - t < cache_ttl c))
      \<and> (now' - now < cache_ttl c \<longrightarrow>
           get_cached c (set_cached c fs now key rs) now' key = Inr (Some rs))
      \<and> (0 < cache_ttl c \<longrightarrow>
           get_cached c (set_cached c fs now key rs) now key = Inr (Some rs))
      \<and> (cache_ttl c \<le> now' - now \<longrightarrow>
           get_cached c (set_cached c fs now key rs) now' key = Inr None
           \<and> get_cached c (fs(cache_path dir key := None)) now' key = Inr None))
   \<and> (cache_dir c = None \<longrightarrow>
        get_cached c fs now key = Inr None \<and> set_cached c fs now key rs = fs)"
proof -
  have iff: "get_cached c fs now key = Inr (Some rs)
         \<longleftrightarrow> (\<exists>t. fs (cache_path dir key) = Some (JsonObject (Some (IsoTime t)) (Some rs))
                  \<and> now - t < cache_ttl c)" if "cache_dir c = Some dir"
    using that
    by (auto simp: get_cached_def split: option.splits cache_file.splits timestamp_field.splits)
  have put: "get_cached c (set_cached c fs now key rs) t key
      = (if t - now < cache_ttl c then Inr (Some rs) else Inr None)" if "cache_dir c = Some dir" for t
    using that by (simp add: get_cached_def set_cached_def)
  have missing: "get_cached c (fs(cache_path dir key := None)) t key = Inr None"
    if "cache_dir c = Some dir" for t
    using that by (simp add: get_cached_def)
  have off: "get_cached c fs now key = Inr None \<and> set_cached c fs now key rs = fs"
    if "cache_dir c = None"
    using that by (simp add: get_cached_def set_cached_def)
  show ?thesis using iff put missing off by simp
qed

theorem cache_get_put_witness:
  "cache_dir (new_client 3 (Some ''cache'') 24 3) = Some ''cache''
   \<and> get_cached (new_client 3 (Some ''cache'') 24 3)
        (set_cached (new_client 3 (Some ''cache'') 24 3) (\<lambda>p. None) 0 ''k'' ''records'') 10 ''k''
       = Inr (Some ''records'')
   \<and> get_cached (new_client 3 (Some ''cache'') 24 3)
        (set_cached (new_client 3 (Some ''cache'') 24 3) (\<lambda>p. None) 0 ''k'' ''records'') 86400 ''k''
       = Inr None
   \<and> cache_dir (new_client 3 None 24 3) = None
   \<and> get_cached (new_client 3 None 24 3) (\<lambda>p. None :: string cache_file option) 10 ''k'' = Inr None"
proof -
  let ?c = "new_client 3 (Some ''cache'') 24 3"
  let ?d = "new_client 3 None 24 3"
  have on: "cache_dir ?c = Some ''cache''" and off: "cache_dir ?d = None"
    by (simp_all add: new_client_def)
  have fresh: "10 - 0 < cache_ttl ?c" and stale: "cache_ttl ?c \<le> 86400 - 0"
    by (simp_all add: new_client_def)
  from cache_get_put [of ?c "''cache''" "\<lambda>p. None" 0 "''k''" "''records''" 10] on fresh
  have 1: "get_cached ?c (set_cached ?c (\<lambda>p. None) 0 ''k'' ''records'') 10 ''k'' = Inr (Some ''records'')"
    by blast
  from cache_get_put [of ?c "''cache''" "\<lambda>p. None" 0 "''k''" "''records''" 86400] on stale
  have 2: "get_cached ?c (set_cached ?c (\<lambda>p. None) 0 ''k'' ''records'') 86400 ''k'' = Inr None"
    by blast
  from cache_get_put [of ?d _ "\<lambda>p. None :: string cache_file option" 10 "''k''"] off
  have 3: "get_cached ?d (\<lambda>p. None :: string cache_file option) 10 ''k'' = Inr None"
    by blast
  from on off 1 2 3 show ?thesis by simp
qed

subsection \<open>Elements without text\<close>

lemma parse_title_error: "parse_title t = Inl err \<Longrightarrow> err = AttributeError"
  by (auto simp: parse_title_def split: option.splits)

text \<open>
  Claim C10. When the \<^verbatim>\<open>title\<close> element or the \<^verbatim>\<open>summary\<close> element of an entry is
  present and has no text, \<^verbatim>\<open>_parse_entry\<close> raises \<^verbatim>\<open>AttributeError\<close>: no record is
  produced.
\<close>

theorem empty_title_or_summary_raises:
  assumes "title_elem e = Some None \<or> summary_elem e = Some None"
  shows "parse_entry L e = Inl AttributeError"
proof (cases "parse_title (title_elem e)")
  case (Inl err)
  with parse_title_error have "err = AttributeError" by blast
  with Inl show ?thesis by (simp add: parse_entry_def)
next
  case (Inr t)
  with assms have "summary_elem e = Some None" by (auto simp: parse_title_def)
  with Inr show ?thesis by (simp add: parse_entry_def parse_abstract_def)
qed

theorem empty_title_or_summary_raises_witness:
  "\<forall>L. title_elem (empty_entry\<lparr>title_elem := Some None\<rparr>) = Some None
     \<and> parse_entry L (empty_entry\<lparr>title_elem := Some None\<rparr>) = Inl AttributeError
     \<and> summary_elem (empty_entry\<lparr>summary_elem := Some None\<rparr>) = Some None
     \<and> parse_entry L (empty_entry\<lparr>summary_elem := Some None\<rparr>) = Inl AttributeError"
proof
  fix L :: "'a datetime_lib"
  have a: "title_elem (empty_entry\<lparr>title_elem := Some None\<rparr>) = Some None" by simp
  have b: "summary_elem (empty_entry\<lparr>summary_elem := Some None\<rparr>) = Some None" by simp
  from empty_title_or_summary_raises [of "empty_entry\<lparr>title_elem := Some None\<rparr>" L] a
  have 1: "parse_entry L (empty_entry\<lparr>title_elem := Some None\<rparr>) = Inl AttributeError" by blast
  from empty_title_or_summary_raises [of "empty_entry\<lparr>summary_elem := Some None\<rparr>" L] b
  have 2: "parse_entry L (empty_entry\<lparr>summary_elem := Some None\<rparr>) = Inl AttributeError" by blast
  from a b 1 2 show "title_elem (empty_entry\<lparr>title_elem := Some None\<rparr>) = Some None
     \<and> parse_entry L (empty_entry\<lparr>title_elem := Some None\<rparr>) = Inl AttributeError
     \<and> summary_elem (empty_entry\<lparr>summary_elem := Some None\<rparr>) = Some None
     \<and> parse_entry L (empty_entry\<lparr>summary_elem := Some None\<rparr>) = Inl AttributeError" by simp
qed

subsection \<open>Defaults of the parser\<close>

lemma strip_to_end_empty: "strip_to_end s = [] \<longleftrightarrow> s = [] \<or> version_suffix s"
  by (cases s) (auto simp: version_suffix_def)

lemma version_suffix_last: "version_suffix s \<Longrightarrow> is_digit (last s)"
  by (cases s) (auto simp: version_suffix_def list_all_iff split: list.splits)

lemma strip_version_empty: "strip_version s = [] \<longleftrightarrow> s = [] \<or> version_suffix s"
proof (cases "s \<noteq> [] \<and> last s = CHR 0x0A \<and> strip_to_end (butlast s) \<noteq> butlast s")
  case True
  then have "\<not> is_digit (last s)" by (simp add: is_digit_def)
  with version_suffix_last have "\<not> version_suffix s" by blast
  with True show ?thesis by (simp add: strip_version_def)
next
  case False
  then show ?thesis using strip_to_end_empty [of s] by (auto simp: strip_version_def)
qed

lemma split_slash_no_slash: "CHR ''/'' \<notin> set u \<Longrightarrow> split_slash u = [u]"
  by (induction u) auto

lemma split_slash_last_slash:
  "CHR ''/'' \<notin> set b \<Longrightarrow> \<exists>x xs. split_slash (a @ CHR ''/'' # b) = x # xs @ [b]"
proof (induction a)
  case Nil
  then show ?case by (simp add: split_slash_no_slash)
next
  case (Cons c a)
  then obtain x xs where "split_slash (a @ CHR ''/'' # b) = x # xs @ [b]" by blast
  then show ?case by (cases "c = CHR ''/''") auto
qed

lemma last_split_slash_empty:
  "last (split_slash u) = [] \<longleftrightarrow> u = [] \<or> last u = CHR ''/''"
proof (cases "CHR ''/'' \<in> set u")
  case False
  then have "split_slash u = [u]" by (rule split_slash_no_slash)
  with False show ?thesis by (cases u rule: rev_cases) auto
next
  case True
  then obtain a b where u: "u = a @ CHR ''/'' # b" and b: "CHR ''/'' \<notin> set b"
    by (meson split_list_last)
  from split_slash_last_slash [OF b] obtain x xs where "split_slash (a @ CHR ''/'' # b) = x # xs @ [b]"
    by blast
  with u have "last (split_slash u) = b" by simp
  moreover have "b = [] \<longleftrightarrow> last u = CHR ''/''"
    using u b by (cases b rule: rev_cases) auto
  ultimately show ?thesis using u by auto
qed

lemma last_segment_nonempty:
  "last_segment (text_or_empty ie) \<noteq> [] \<longleftrightarrow> (\<exists>u. ie = Some (Some u) \<and> u \<noteq> [] \<and> last u \<noteq> CHR ''/'')"
  by (auto simp: last_segment_def text_or_empty_def last_split_slash_empty split: option.splits)

lemma parse_date_absent: "parse_date L None = Inr None"
  by (simp add: parse_date_def text_or_empty_def replace_Z_def)

lemma parse_date_total: "pe \<noteq> Some None \<Longrightarrow> \<exists>d. parse_date L pe = Inr d"
  by (cases pe) (auto simp: parse_date_def text_or_empty_def)

lemma parse_title_total: "te \<noteq> Some None \<Longrightarrow> \<exists>t. parse_title te = Inr t \<and> (te = None \<longrightarrow> t = [])"
  by (cases te) (auto simp: parse_title_def)

lemma parse_abstract_total: "se \<noteq> Some None \<Longrightarrow> \<exists>t. parse_abstract se = Inr t \<and> (se = None \<longrightarrow> t = [])"
  by (cases se) (auto simp: parse_abstract_def)

lemma parse_entry_Inr:
  assumes "parse_title (title_elem e) = Inr t" and "parse_abstract (summary_elem e) = Inr a"
    and "parse_date L (published_elem e) = Inr pd" and "parse_date L (updated_elem e) = Inr ud"
  shows "parse_entry L e =
           Inr \<lparr> arxiv_id = last_segment (text_or_empty (id_elem e)),
                 base_id = strip_version (last_segment (text_or_empty (id_elem e))),
                 title = t,
                 authors = author_names (author_elems e),
                 affiliations = author_affiliations (author_elems e),
                 abstract = a,
                 published = (case pd of None \<Rightarrow> [] | Some d \<Rightarrow> strftime_date L d),
                 published_datetime = map_option (isoformat L) pd,
                 updated = (case ud of None \<Rightarrow> [] | Some d \<Rightarrow> strftime_date L d),
                 updated_datetime = map_option (isoformat L) ud,
                 primary_category =
                   (case primary_category_elem e of None \<Rightarrow> Some [] | Some term_attr \<Rightarrow> term_attr),
                 categories = category_elems e,
                 doi = text_or_none (doi_elem e),
                 journal_ref = text_or_none (journal_ref_elem e),
                 comment = text_or_none (comment_elem e),
                 arxiv_url = ''https://arxiv.org/abs/'' @ strip_version (last_segment (text_or_empty (id_elem e))),
                 pdf_url = ''https://arxiv.org/pdf/'' @ strip_version (last_segment (text_or_empty (id_elem e))) @ ''.pdf'',
                 links = parse_links (link_elems e) \<rparr>"
  unfolding parse_entry_def Let_def assms by simp

lemma last_segment_example: "last_segment (Some ''http://arxiv.org/abs/2106.01234v1'') = ''2106.01234v1''"
  by (simp add: last_segment_def)

lemma strip_version_example: "strip_version ''2106.01234v1'' = ''2106.01234''"
  by (simp add: strip_version_def version_suffix_def is_digit_def)

text \<open>
  Claim C6, as the code has it. When each of the \<^verbatim>\<open>title\<close>, \<^verbatim>\<open>summary\<close>, \<^verbatim>\<open>published\<close> and
  \<^verbatim>\<open>updated\<close> elements is absent or carries text, \<^verbatim>\<open>_parse_entry\<close> does not raise, and
  the field of every absent element has its default: the empty string, the empty list
  or \<open>None\<close>. In particular an entry without an \<^verbatim>\<open>id\<close> element gives empty identifiers.
  The versioned identifier is not empty exactly when the \<^verbatim>\<open>id\<close> element has a text that
  is not empty and does not end in a slash; the base identifier is not empty exactly
  when, moreover, the versioned identifier is not a bare version marker.
\<close>

theorem parse_entry_defaults:
  assumes "title_elem e \<noteq> Some None" and "summary_elem e \<noteq> Some None"
    and "published_elem e \<noteq> Some None" and "updated_elem e \<noteq> Some None"
  shows "\<exists>p. parse_entry L e = Inr p
     \<and> (id_elem e = None \<longrightarrow> arxiv_id p = [] \<and> base_id p = [])
     \<and> (title_elem e = None \<longrightarrow> title p = [])
     \<and> (author_elems e = [] \<longrightarrow> authors p = [] \<and> affiliations p = [])
     \<and> (summary_elem e = None \<longrightarrow> abstract p = [])
     \<and> (published_elem e = None \<longrightarrow> published p = [] \<and> published_datetime p = None)
     \<and> (updated_elem e = None \<longrightarrow> updated p = [] \<and> updated_datetime p = None)
     \<and> (primary_category_elem e = None \<longrightarrow> primary_category p = Some [])
     \<and> (category_elems e = [] \<longrightarrow> categories p = [])
     \<and> (link_elems e = [] \<longrightarrow> links p = [])
     \<and> (doi_elem e = None \<longrightarrow> doi p = None)
     \<and> (journal_ref_elem e = None \<longrightarrow> journal_ref p = None)
     \<and> (comment_elem e = None \<longrightarrow> comment p = None)
     \<and> (arxiv_id p \<noteq> [] \<longleftrightarrow> (\<exists>u. id_elem e = Some (Some u) \<and> u \<noteq> [] \<and> last u \<noteq> CHR ''/''))
     \<and> (base_id p \<noteq> [] \<longleftrightarrow> arxiv_id p \<noteq> [] \<and> \<not> version_suffix (arxiv_id p))"
proof -
  from parse_title_total [OF assms(1)] obtain t
    where t: "parse_title (title_elem e) = Inr t" and t0: "title_elem e = None \<longrightarrow> t = []"
    by auto
  from parse_abstract_total [OF assms(2)] obtain a
    where a: "parse_abstract (summary_elem e) = Inr a" and a0: "summary_elem e = None \<longrightarrow> a = []"
    by auto
  from parse_date_total [OF assms(3)] obtain pd where pd: "parse_date L (published_elem e) = Inr pd"
    by auto
  from parse_date_total [OF assms(4)] obtain ud where ud: "parse_date L (updated_elem e) = Inr ud"
    by auto
  have pd0: "published_elem e = None \<longrightarrow> pd = None" using pd by (auto simp: parse_date_absent)
  have ud0: "updated_elem e = None \<longrightarrow> ud = None" using ud by (auto simp: parse_date_absent)
  have ids: "id_elem e = None \<longrightarrow> last_segment (text_or_empty (id_elem e)) = []"
    by (simp add: last_segment_def text_or_empty_def)
  have b0: "strip_version [] = []" by (simp add: strip_version_def)
  from parse_entry_Inr [OF t a pd ud] obtain p where p: "parse_entry L e = Inr p"
    and f: "arxiv_id p = last_segment (text_or_empty (id_elem e))"
      "base_id p = strip_version (last_segment (text_or_empty (id_elem e)))"
      "title p = t" "authors p = author_names (author_elems e)"
      "affiliations p = author_affiliations (author_elems e)" "abstract p = a"
      "published p = (case pd of None \<Rightarrow> [] | Some d \<Rightarrow> strftime_date L d)"
      "published_datetime p = map_option (isoformat L) pd"
      "updated p = (case ud of None \<Rightarrow> [] | Some d \<Rightarrow> strftime_date L d)"
      "updated_datetime p = map_option (isoformat L) ud"
      "primary_category p =
         (case primary_category_elem e of None \<Rightarrow> Some [] | Some term_attr \<Rightarrow> term_attr)"
      "categories p = category_elems e" "doi p = text_or_none (doi_elem e)"
      "journal_ref p = text_or_none (journal_ref_elem e)"
      "comment p = text_or_none (comment_elem e)" "links p = parse_links (link_elems e)"
    by simp
  show ?thesis
  proof (intro exI [of _ p] conjI)
    show "parse_entry L e = Inr p" by (rule p)
  qed (use f t0 a0 pd0 ud0 ids b0 last_segment_nonempty [of "id_elem e"]
      strip_version_empty [of "last_segment (text_or_empty (id_elem e))"]
    in \<open>simp_all add: author_names_def author_affiliations_def parse_links_def text_or_none_def\<close>)
qed

text \<open>
  The claim as it was stated, that the identifier is not empty whenever the \<^verbatim>\<open>id\<close>
  element is present, fails: for an \<^verbatim>\<open>id\<close> whose text ends in a slash, and for an \<^verbatim>\<open>id\<close>
  element without text, a record is produced with empty identifiers.
\<close>

theorem id_present_but_empty:
  "\<forall>L. (\<exists>p. parse_entry L (empty_entry\<lparr>id_elem := Some (Some ''http://arxiv.org/abs/'')\<rparr>) = Inr p
            \<and> arxiv_id p = [] \<and> base_id p = [])
     \<and> (\<exists>p. parse_entry L (empty_entry\<lparr>id_elem := Some None\<rparr>) = Inr p
            \<and> arxiv_id p = [] \<and> base_id p = [])"
  by (simp add: parse_entry_def empty_entry_def parse_title_def parse_abstract_def parse_date_absent
      last_segment_def text_or_empty_def strip_version_def)

theorem parse_entry_defaults_witness:
  "\<forall>L. title_elem (empty_entry\<lparr>id_elem := Some (Some ''http://arxiv.org/abs/2106.01234v1'')\<rparr>) \<noteq> Some None
     \<and> (\<exists>p. parse_entry L (empty_entry\<lparr>id_elem := Some (Some ''http://arxiv.org/abs/2106.01234v1'')\<rparr>) = Inr p
          \<and> title p = [] \<and> authors p = [] \<and> abstract p = [] \<and> published p = []
          \<and> published_datetime p = None \<and> links p = [] \<and> doi p = None
          \<and> arxiv_id p = ''2106.01234v1'' \<and> base_id p = ''2106.01234'')"
proof
  fix L :: "'a datetime_lib"
  let ?e = "empty_entry\<lparr>id_elem := Some (Some ''http://arxiv.org/abs/2106.01234v1'')\<rparr>"
  have h: "title_elem ?e \<noteq> Some None" "summary_elem ?e \<noteq> Some None"
    "published_elem ?e \<noteq> Some None" "updated_elem ?e \<noteq> Some None"
    by (simp_all add: empty_entry_def)
  have abs: "title_elem ?e = None" "author_elems ?e = []" "summary_elem ?e = None"
    "published_elem ?e = None" "link_elems ?e = []" "doi_elem ?e = None"
    by (simp_all add: empty_entry_def)
  from parse_entry_defaults [OF h, of L] abs obtain p where p: "parse_entry L ?e = Inr p"
    "title p = []" "authors p = []" "abstract p = []" "published p = []"
    "published_datetime p = None" "links p = []" "doi p = None"
    by blast
  from p(1) have "arxiv_id p = ''2106.01234v1''" "base_id p = ''2106.01234''"
    by (auto simp: parse_entry_def Let_def text_or_empty_def last_segment_example strip_version_example split: sum.splits)
  with p h(1) show "title_elem ?e \<noteq> Some None
     \<and> (\<exists>p. parse_entry L ?e = Inr p
          \<and> title p = [] \<and> authors p = [] \<and> abstract p = [] \<and> published p = []
          \<and> published_datetime p = None \<and> links p = [] \<and> doi p = None
          \<and> arxiv_id p = ''2106.01234v1'' \<and> base_id p = ''2106.01234'')" by blast
qed

subsection \<open>Whitespace in titles and abstracts\<close>















subsection \<open>Fields of a parsed entry\<close>














subsection \<open>Identifiers\<close>

lemma digit_facts:
  "\<not> is_digit (CHR ''v'')" "\<not> is_digit (CHR ''/'')" "\<not> is_digit (CHR ''.'')"
  "\<not> is_digit (CHR 0x0A)" "\<not> is_category_char (CHR ''/'')" "\<not> is_category_char (CHR ''.'')"
  by (simp_all add: is_digit_def is_category_char_def)

lemma category_not_digit: "is_category_char c \<Longrightarrow> \<not> is_digit c"
  by (auto simp: is_category_char_def is_digit_def less_eq_char_def)

lemma new_style_idD:
  assumes "new_style_id i"
  obtains a b where "i = a @ CHR ''.'' # b" "length a = 4" "list_all is_digit a"
    "length b = 4 \<or> length b = 5" "list_all is_digit b"
proof -
  from assms have len: "4 < length i" by (auto simp: new_style_id_def)
  then have "i = take 4 i @ i ! 4 # drop 5 i" using id_take_nth_drop [of 4 i] by simp
  with assms have "i = take 4 i @ CHR ''.'' # drop 5 i" by (simp add: new_style_id_def)
  moreover from assms have "length (take 4 i) = 4" "list_all is_digit (take 4 i)"
    "length (drop 5 i) = 4 \<or> length (drop 5 i) = 5" "list_all is_digit (drop 5 i)"
    by (auto simp: new_style_id_def)
  ultimately show thesis using that by blast
qed

lemma plain_old_style_idD:
  assumes "plain_old_style_id i"
  obtains cat d where "i = cat @ CHR ''/'' # d" "cat \<noteq> []" "list_all is_category_char cat"
    "length d = 7" "list_all is_digit d"
proof -
  from assms obtain d where d: "dropWhile is_category_char i = CHR ''/'' # d" "length d = 7"
    "list_all is_digit d"
    by (auto simp: plain_old_style_id_def split: list.splits)
  have "i = takeWhile is_category_char i @ dropWhile is_category_char i" by simp
  with d have "i = takeWhile is_category_char i @ CHR ''/'' # d" by simp
  moreover have "list_all is_category_char (takeWhile is_category_char i)"
    by (auto simp: list_all_iff dest: set_takeWhileD)
  moreover from assms have "takeWhile is_category_char i \<noteq> []" by (simp add: plain_old_style_id_def)
  ultimately show thesis using that d by blast
qed

lemma version_suffixD:
  assumes "version_suffix v"
  obtains ds where "v = CHR ''v'' # ds" "ds \<noteq> []" "list_all is_digit ds"
  using assms by (cases v) (auto simp: version_suffix_def)

lemma version_marker_not_digits:
  "version_suffix v \<Longrightarrow> \<not> list_all is_digit (x @ v)"
  by (auto elim!: version_suffixD simp: digit_facts)

lemma strip_to_end_marker: "version_suffix v \<Longrightarrow> strip_to_end (i @ v) = i"
proof (induction i)
  case Nil
  then show ?case by (cases v) auto
next
  case (Cons c i)
  from Cons.prems have "\<not> list_all is_digit (i @ v)" by (rule version_marker_not_digits)
  then have "\<not> version_suffix (c # i @ v)" by (simp add: version_suffix_def)
  with Cons show ?case by simp
qed

lemma strip_version_marker:
  assumes "version_suffix v"
  shows "strip_version (i @ v) = i"
proof -
  from assms have "is_digit (last v)" by (rule version_suffix_last)
  moreover from assms have "v \<noteq> []" by (auto simp: version_suffix_def)
  ultimately have "last (i @ v) \<noteq> CHR 0x0A" using digit_facts(4) by auto
  then show ?thesis using strip_to_end_marker [OF assms] by (simp add: strip_version_def)
qed

lemma strip_to_end_unversioned:
  assumes "c \<noteq> CHR ''v''" and "\<not> is_digit c" and "list_all is_digit b"
  shows "strip_to_end (a @ c # b) = a @ c # b"
proof (induction a)
  case Nil
  have "strip_to_end b = b" using assms(3)
  proof (induction b)
    case Nil
    then show ?case by simp
  next
    case (Cons x b)
    then have "x \<noteq> CHR ''v''" using digit_facts(1) by auto
    with Cons show ?case by (simp add: version_suffix_def)
  qed
  with assms(1) show ?case by (simp add: version_suffix_def)
next
  case (Cons x a)
  from assms(2) have "\<not> list_all is_digit (a @ c # b)" by simp
  then have "\<not> version_suffix (x # a @ c # b)" by (simp add: version_suffix_def)
  with Cons show ?case by simp
qed

lemma strip_version_unversioned:
  assumes "c \<noteq> CHR ''v''" and "\<not> is_digit c" and "list_all is_digit b" and "b \<noteq> []"
  shows "strip_version (a @ c # b) = a @ c # b"
proof -
  from assms(3,4) have "is_digit (last b)" by (simp add: list_all_iff)
  with assms(4) have "last (a @ c # b) \<noteq> CHR 0x0A" using digit_facts(4) by auto
  then show ?thesis using strip_to_end_unversioned [OF assms(1-3)] by (simp add: strip_version_def)
qed

lemma strip_version_id:
  assumes "new_style_id i \<or> plain_old_style_id i"
  shows "strip_version i = i"
  using assms
proof
  assume "new_style_id i"
  then obtain a b where i: "i = a @ CHR ''.'' # b" "list_all is_digit b"
    and "length b = 4 \<or> length b = 5"
    by (auto elim: new_style_idD)
  then have "b \<noteq> []" by auto
  with i show ?thesis using strip_version_unversioned [of "CHR ''.''" b a] digit_facts by simp
next
  assume "plain_old_style_id i"
  then obtain cat d where i: "i = cat @ CHR ''/'' # d" "list_all is_digit d" and "length d = 7"
    by (auto elim: plain_old_style_idD)
  then have "d \<noteq> []" by auto
  with i show ?thesis using strip_version_unversioned [of "CHR ''/''" d cat] digit_facts by simp
qed


lemma starts_with_set: "starts_with n s \<Longrightarrow> set n \<subseteq> set s"
  by (induction n s rule: starts_with.induct) auto

lemma contains_set: "contains n s \<Longrightarrow> set n \<subseteq> set s"
proof (induction s)
  case Nil
  then show ?case by simp
next
  case (Cons a s)
  from Cons.prems have "starts_with n (a # s) \<or> contains n s" by simp
  then show ?case
  proof
    assume "starts_with n (a # s)"
    then show ?thesis by (rule starts_with_set)
  next
    assume "contains n s"
    then have "set n \<subseteq> set s" by (rule Cons.IH)
    then show ?thesis by auto
  qed
qed

lemma starts_with_append: "starts_with n a \<Longrightarrow> starts_with n (a @ b)"
  by (induction n a rule: starts_with.induct) auto

lemma contains_append: "n \<noteq> [] \<Longrightarrow> contains n a \<Longrightarrow> contains n (a @ b)"
  by (induction a) (auto dest: starts_with_append)

lemma bare_id_no_host:
  assumes "new_style_id i \<or> plain_old_style_id i" and "v = [] \<or> version_suffix v"
  shows "\<not> contains ''arxiv.org'' (i @ v)"
proof
  assume "contains ''arxiv.org'' (i @ v)"
  then have sub: "set ''arxiv.org'' \<subseteq> set (i @ v)" by (rule contains_set)
  have v: "\<forall>c\<in>set v. c = CHR ''v'' \<or> is_digit c"
    using assms(2) by (auto elim!: version_suffixD simp: list_all_iff)
  from assms(1) show False
  proof
    assume "new_style_id i"
    then obtain a b where "i = a @ CHR ''.'' # b" "list_all is_digit a" "list_all is_digit b"
      by (auto elim: new_style_idD)
    then have "\<forall>c\<in>set (i @ v). c = CHR ''.'' \<or> c = CHR ''v'' \<or> is_digit c"
      using v by (auto simp: list_all_iff)
    moreover from sub have "CHR ''a'' \<in> set (i @ v)" by auto
    ultimately have "CHR ''a'' = CHR ''.'' \<or> CHR ''a'' = CHR ''v'' \<or> is_digit (CHR ''a'')"
      by blast
    then show False by (simp add: is_digit_def)
  next
    assume "plain_old_style_id i"
    then obtain cat d where "i = cat @ CHR ''/'' # d" "list_all is_category_char cat"
      "list_all is_digit d"
      by (auto elim: plain_old_style_idD)
    then have "\<forall>c\<in>set (i @ v). is_category_char c \<or> c = CHR ''/'' \<or> c = CHR ''v'' \<or> is_digit c"
      using v by (auto simp: list_all_iff)
    moreover from sub have "CHR ''.'' \<in> set (i @ v)" by auto
    ultimately have "is_category_char (CHR ''.'') \<or> CHR ''.'' = CHR ''/'' \<or> CHR ''.'' = CHR ''v''
        \<or> is_digit (CHR ''.'')"
      by blast
    then show False by (simp add: digit_facts)
  qed
qed

lemma clean_bare_id:
  assumes "new_style_id i \<or> plain_old_style_id i" and "v = [] \<or> version_suffix v"
  shows "clean_arxiv_id (i @ v) = i"
proof -
  have "strip_version (i @ v) = i"
  proof (cases "v = []")
    case True
    then show ?thesis using strip_version_id [OF assms(1)] by simp
  next
    case False
    with assms(2) have "version_suffix v" by simp
    then show ?thesis by (rule strip_version_marker)
  qed
  with bare_id_no_host [OF assms] show ?thesis by (simp add: clean_arxiv_id_def)
qed


lemma match_new_id_nondigit: "\<not> is_digit c \<Longrightarrow> match_new_id (c # r) = None"
  by (simp add: match_new_id_def)

lemma search_new_id_no_slash: "CHR ''/'' \<notin> set s \<Longrightarrow> search_new_id s = None"
  by (induction s) auto

lemma search_new_id_skip:
  assumes "list_all (\<lambda>x. \<not> is_digit x) pre" and "\<not> is_digit c"
  shows "search_new_id (pre @ c # s) = search_new_id (c # s)"
  using assms(1)
proof (induction pre)
  case Nil
  show ?case by simp
next
  case (Cons x pre)
  have "match_new_id (pre @ c # s) = None"
  proof (cases pre)
    case Nil
    with assms(2) show ?thesis by (simp add: match_new_id_nondigit)
  next
    case (Cons y ys)
    with Cons.prems show ?thesis by (simp add: match_new_id_nondigit)
  qed
  then have step: "search_new_id ((x # pre) @ c # s) = search_new_id (pre @ c # s)" by simp
  from Cons have "search_new_id (pre @ c # s) = search_new_id (c # s)" by simp
  with step show ?case by (simp only:)
qed

lemma takeWhile_digits_marker:
  assumes "list_all is_digit b" and "v = [] \<or> version_suffix v"
  shows "takeWhile is_digit (b @ take n v) = b"
proof (cases "take n v")
  case Nil
  have "takeWhile is_digit b = b" using assms(1) by (simp add: list_all_iff)
  then show ?thesis by (simp only: Nil append_Nil2)
next
  case (Cons x xs)
  then have "v \<noteq> []" by auto
  with assms(2) obtain ds where "v = CHR ''v'' # ds" by (auto elim: version_suffixD)
  with Cons have "x = CHR ''v''" by (cases n) auto
  with Cons assms(1) show ?thesis by (simp add: list_all_iff takeWhile_append2 digit_facts)
qed

lemma match_new_id_found:
  assumes "new_style_id i" and "v = [] \<or> version_suffix v"
  shows "match_new_id (i @ v) = Some i"
proof -
  from assms(1) obtain a b where i: "i = a @ CHR ''.'' # b" and a: "length a = 4" "list_all is_digit a"
    and b: "length b = 4 \<or> length b = 5" "list_all is_digit b"
    by (rule new_style_idD)
  have t: "take 4 (i @ v) = a" and d: "drop 4 (i @ v) = CHR ''.'' # b @ v"
    using a(1) by (simp_all add: i)
  have "take 5 (b @ v) = b @ take (5 - length b) v" using b(1) by auto
  then have "takeWhile is_digit (take 5 (b @ v)) = b"
    using takeWhile_digits_marker [OF b(2) assms(2)] by simp
  with b(1) show ?thesis unfolding match_new_id_def t d using a i by auto
qed

lemma search_new_id_url:
  assumes "list_all (\<lambda>x. \<not> is_digit x) pre" and "new_style_id i" and "v = [] \<or> version_suffix v"
  shows "search_new_id (pre @ ''/'' @ i @ v) = Some i"
proof -
  have "search_new_id (pre @ CHR ''/'' # i @ v) = search_new_id (CHR ''/'' # i @ v)"
    using assms(1) digit_facts(2) by (rule search_new_id_skip)
  then show ?thesis using match_new_id_found [OF assms(2,3)] by simp
qed

lemma search_new_id_old_url:
  assumes "list_all (\<lambda>x. \<not> is_digit x) pre" and "plain_old_style_id i" and "v = [] \<or> version_suffix v"
  shows "search_new_id (pre @ ''/'' @ i @ v) = None"
proof -
  from assms(2) obtain cat d where i: "i = cat @ CHR ''/'' # d" and cat: "cat \<noteq> []"
    "list_all is_category_char cat" and d: "length d = 7" "list_all is_digit d"
    by (rule plain_old_style_idD)
  from cat obtain c cs where c: "cat = c # cs" "\<not> is_digit c"
    by (cases cat) (auto simp: category_not_digit)
  have catd: "list_all (\<lambda>x. \<not> is_digit x) cat"
    using cat(2) by (auto simp: list_all_iff category_not_digit)
  have 1: "search_new_id (pre @ CHR ''/'' # i @ v) = search_new_id (CHR ''/'' # i @ v)"
    using assms(1) digit_facts(2) by (rule search_new_id_skip)
  have 2: "search_new_id (CHR ''/'' # i @ v) = search_new_id (i @ v)"
    using c by (simp add: i match_new_id_nondigit)
  have 3: "search_new_id (i @ v) = search_new_id (CHR ''/'' # d @ v)"
    unfolding i using search_new_id_skip [OF catd digit_facts(2), of "d @ v"] by simp
  from d obtain d4 x rest where dd: "d = d4 @ x # rest" "length d4 = 4" "is_digit x"
    using id_take_nth_drop [of 4 d] by (auto simp: list_all_iff intro: that [of "take 4 d" "d ! 4" "drop 5 d"])
  then have "x \<noteq> CHR ''.''" using digit_facts(3) by auto
  with dd have 4: "match_new_id (d @ v) = None" by (simp add: match_new_id_def)
  have "\<forall>y\<in>set (d @ v). y = CHR ''v'' \<or> is_digit y"
    using d(2) assms(3) by (auto elim!: version_suffixD simp: list_all_iff)
  then have "CHR ''/'' \<notin> set (d @ v)" using digit_facts(2) by blast
  then have 5: "search_new_id (d @ v) = None" by (rule search_new_id_no_slash)
  from 1 2 3 4 5 show ?thesis by simp
qed


lemma match_old_id_found:
  assumes "plain_old_style_id i"
  shows "match_old_id (i @ v) = Some i"
proof -
  from assms obtain cat d where i: "i = cat @ CHR ''/'' # d" and cat: "cat \<noteq> []"
    "list_all is_category_char cat" and d: "length d = 7" "list_all is_digit d"
    by (rule plain_old_style_idD)
  have t: "takeWhile is_category_char (i @ v) = cat"
    unfolding i using cat(2) by (simp add: list_all_iff takeWhile_append2 digit_facts)
  have dr: "dropWhile is_category_char (i @ v) = CHR ''/'' # d @ v"
    unfolding i using cat(2) by (simp add: list_all_iff dropWhile_append2 digit_facts)
  show ?thesis unfolding match_old_id_def t dr Let_def using cat(1) d i by simp
qed

lemma match_old_id_digit_free:
  assumes "list_all (\<lambda>x. \<not> is_digit x) p" and "\<not> is_digit c"
  shows "match_old_id (p @ CHR ''/'' # c # t) = None"
proof -
  have "(case dropWhile is_category_char (p @ CHR ''/'' # c # t) of
           [] \<Rightarrow> None
         | y # r \<Rightarrow> if y = CHR ''/'' \<and> length (take 7 r) = 7 \<and> list_all is_digit (take 7 r)
                    then Some (g @ ''/'' @ take 7 r) else None) = None" for g
    using assms(1)
  proof (induction p)
    case Nil
    with assms(2) show ?case by (simp add: digit_facts)
  next
    case (Cons x p)
    show ?case
    proof (cases "is_category_char x")
      case True
      with Cons show ?thesis by simp
    next
      case False
      have "\<not> list_all is_digit (take 7 (p @ CHR ''/'' # c # t))"
        using Cons.prems by (cases p) (simp_all add: digit_facts)
      with False show ?thesis by simp
    qed
  qed
  then show ?thesis by (simp add: match_old_id_def Let_def)
qed

lemma search_old_id_skip:
  assumes "list_all (\<lambda>x. \<not> is_digit x) pre" and "\<not> is_digit c"
  shows "search_old_id (pre @ CHR ''/'' # c # t) = search_old_id (CHR ''/'' # c # t)"
  using assms(1)
proof (induction pre)
  case Nil
  show ?case by simp
next
  case (Cons x pre)
  then have "match_old_id (pre @ CHR ''/'' # c # t) = None"
    using match_old_id_digit_free [OF _ assms(2)] by simp
  then have step: "search_old_id ((x # pre) @ CHR ''/'' # c # t) = search_old_id (pre @ CHR ''/'' # c # t)"
    by simp
  from Cons have "search_old_id (pre @ CHR ''/'' # c # t) = search_old_id (CHR ''/'' # c # t)" by simp
  with step show ?case by (simp only:)
qed

lemma search_old_id_url:
  assumes "list_all (\<lambda>x. \<not> is_digit x) pre" and "plain_old_style_id i"
  shows "search_old_id (pre @ ''/'' @ i @ v) = Some i"
proof -
  from assms(2) obtain cat d where i: "i = cat @ CHR ''/'' # d" and cat: "cat \<noteq> []"
    "list_all is_category_char cat"
    by (rule plain_old_style_idD)
  from cat obtain c cs where c: "cat = c # cs" "\<not> is_digit c"
    by (cases cat) (auto simp: category_not_digit)
  then obtain t where t: "i @ v = c # t" by (simp add: i)
  have "search_old_id (pre @ CHR ''/'' # c # t) = search_old_id (CHR ''/'' # c # t)"
    using assms(1) c(2) by (rule search_old_id_skip)
  then have "search_old_id (pre @ CHR ''/'' # i @ v) = search_old_id (CHR ''/'' # i @ v)"
    by (simp only: t)
  then show ?thesis using match_old_id_found [OF assms(2), of v] by simp
qed

lemma clean_url:
  assumes "contains ''arxiv.org'' pre" and "list_all (\<lambda>x. \<not> is_digit x) pre"
    and "new_style_id i \<or> plain_old_style_id i" and "v = [] \<or> version_suffix v"
  shows "clean_arxiv_id (pre @ ''/'' @ i @ v) = i"
proof -
  have host: "contains ''arxiv.org'' (pre @ ''/'' @ i @ v)"
    using assms(1) by (intro contains_append) simp_all
  from assms(3) show ?thesis
  proof
    assume "new_style_id i"
    then have "search_new_id (pre @ ''/'' @ i @ v) = Some i"
      using assms(2,4) by (intro search_new_id_url)
    with host show ?thesis by (simp only: clean_arxiv_id_def if_True option.case)
  next
    assume old: "plain_old_style_id i"
    then have "search_new_id (pre @ ''/'' @ i @ v) = None"
      using assms(2,4) by (intro search_new_id_old_url)
    moreover have "search_old_id (pre @ ''/'' @ i @ v) = Some i"
      using assms(2) old by (rule search_old_id_url)
    ultimately show ?thesis using host by (simp only: clean_arxiv_id_def if_True option.case)
  qed
qed

text \<open>
  Where the patterns do their work. Let \<open>i\<close> be a new-style or a plain old-style
  identifier and \<open>v\<close> nothing or a version marker. Given as the URL \<open>pre/iv\<close>, where
  \<open>pre\<close> names the host \<^verbatim>\<open>arxiv.org\<close> and has no digit in it, or given bare as \<open>iv\<close>,
  the identifier is cleaned to \<open>i\<close>.
\<close>

lemma clean_arxiv_id_plain:
  assumes "new_style_id i \<or> plain_old_style_id i" and "v = [] \<or> version_suffix v"
    and "contains ''arxiv.org'' pre" and "list_all (\<lambda>x. \<not> is_digit x) pre"
  shows "clean_arxiv_id (pre @ ''/'' @ i @ v) = i
    \<and> clean_arxiv_id (i @ v) = i
    \<and> get_paper_params (pre @ ''/'' @ i @ v) = [(''id_list'', JStr i), (''max_results'', JInt 1)]
    \<and> get_paper_params (i @ v) = [(''id_list'', JStr i), (''max_results'', JInt 1)]
    \<and> get_papers_params [pre @ ''/'' @ i @ v, i @ v]
         = [(''id_list'', JStr (i @ '','' @ i)), (''max_results'', JInt 2)]
    \<and> clean_arxiv_id ''https://arxiv.org/abs/2301.12345v2'' = ''2301.12345''
    \<and> clean_arxiv_id ''quant-ph/0201082v1'' = ''quant-ph/0201082''"
proof -
  note u = clean_url [OF assms(3,4,1,2)] and b = clean_bare_id [OF assms(1,2)]
  have n: "new_style_id ''2301.12345''" by (simp add: new_style_id_def is_digit_def)
  have o: "plain_old_style_id ''quant-ph/0201082''"
    by (simp add: plain_old_style_id_def is_category_char_def is_digit_def less_eq_char_def)
  have v2: "version_suffix ''v2''" and v1: "version_suffix ''v1''"
    by (simp_all add: version_suffix_def is_digit_def)
  have h: "contains ''arxiv.org'' ''https://arxiv.org/abs''" by simp
  have p: "list_all (\<lambda>x. \<not> is_digit x) ''https://arxiv.org/abs''" by (simp add: is_digit_def)
  have e1: "clean_arxiv_id ''https://arxiv.org/abs/2301.12345v2'' = ''2301.12345''"
    using clean_url [OF h p, of "''2301.12345''" "''v2''"] n v2 by simp
  have e2: "clean_arxiv_id ''quant-ph/0201082v1'' = ''quant-ph/0201082''"
    using clean_bare_id [of "''quant-ph/0201082''" "''v1''"] o v1 by simp
  show ?thesis
    using u b e1 e2 by (simp add: get_paper_params_def get_papers_params_def)
qed

subsection \<open>The cache key\<close>





















subsection \<open>The trace of a request\<close>

lemma send_trace:
  assumes "send E ps c w = (outcome, c1, w1)"
  shows "\<exists>tr. trace w1 = trace w @ tr @ [HttpGet ps] \<and> backoff_sleeps tr = [] \<and> filter is_get tr = []"
  using assms
  by (auto simp: send_def Let_def rate_limit_def backoff_sleeps_def split: prod.splits)

lemma attempt_request_trace:
  assumes "attempt_request E ps key attempt c w = (r, c', w')"
  shows "\<exists>tr. trace w' = trace w @ tr \<and> HttpGet ps \<in> set tr"
proof -
  obtain outcome c1 w1 where s: "send E ps c w = (outcome, c1, w1)" by (cases "send E ps c w")
  from send_trace [OF s] obtain tr where tr: "trace w1 = trace w @ tr @ [HttpGet ps]" by blast
  have "trace w' = trace w1 \<or> trace w' = trace w1 @ [BackoffSleep (2 ^ attempt)]"
    using assms s
    by (auto simp: attempt_request_def backoff_def
        split: http_outcome.splits if_splits option.splits sum.splits)
  with tr show ?thesis by auto
qed

lemma request_loop_trace:
  assumes "request_loop E ps key remaining attempt c w = (r, c', w')"
  shows "\<exists>tr. trace w' = trace w @ tr \<and> (0 < remaining \<longrightarrow> HttpGet ps \<in> set tr)"
  using assms
proof (induction remaining arbitrary: attempt c w)
  case 0
  then show ?case by simp
next
  case (Suc remaining)
  obtain s c1 w1 where a: "attempt_request E ps key attempt c w = (s, c1, w1)"
    by (cases "attempt_request E ps key attempt c w")
  from attempt_request_trace [OF a] obtain tr where tr: "trace w1 = trace w @ tr" "HttpGet ps \<in> set tr"
    by blast
  show ?case
  proof (cases s)
    case (Return papers)
    with Suc.prems a tr show ?thesis by auto
  next
    case (Raise err)
    with Suc.prems a tr show ?thesis by auto
  next
    case Continue
    with Suc.prems a have "request_loop E ps key remaining (Suc attempt) c1 w1 = (r, c', w')" by simp
    from Suc.IH [OF this] obtain tr' where "trace w' = trace w1 @ tr'" by blast
    with tr show ?thesis by auto
  qed
qed

lemma make_request_sends:
  assumes "cache_dir c = None" and "0 < max_retries c"
  shows "HttpGet ps \<in> set (trace (snd (snd (make_request E c w ps))))"
proof -
  obtain r c' w' where l: "request_loop E ps (get_cache_key (md5_digest E) ps) (nat (max_retries c)) 0 c w = (r, c', w')"
    by (cases "request_loop E ps (get_cache_key (md5_digest E) ps) (nat (max_retries c)) 0 c w")
  from request_loop_trace [OF l] assms(2) obtain tr where "trace w' = trace w @ tr" "HttpGet ps \<in> set tr"
    by auto
  then show ?thesis using assms(1) l by (simp add: make_request_def get_cached_def Let_def)
qed

subsection \<open>Identifiers with a subject class\<close>

lemma subject_class_url:
  "clean_arxiv_id ''https://arxiv.org/abs/math.GT/0309136v2'' = ''https://arxiv.org/abs/math.GT/0309136''"
proof -
  have h: "contains ''arxiv.org'' ''https://arxiv.org/abs/math.GT/0309136v2''" by simp
  have n: "search_new_id ''https://arxiv.org/abs/math.GT/0309136v2'' = None"
    by (simp add: match_new_id_def is_digit_def)
  have o: "search_old_id ''https://arxiv.org/abs/math.GT/0309136v2'' = None"
    by (simp add: match_old_id_def is_category_char_def less_eq_char_def is_digit_def)
  have v: "strip_version ''https://arxiv.org/abs/math.GT/0309136v2'' = ''https://arxiv.org/abs/math.GT/0309136''"
    using strip_version_marker [of "''v2''" "''https://arxiv.org/abs/math.GT/0309136''"]
    by (simp add: version_suffix_def is_digit_def)
  show ?thesis by (simp only: clean_arxiv_id_def h n o v if_True option.case)
qed

lemma subject_class_bare: "clean_arxiv_id ''math.GT/0309136v2'' = ''math.GT/0309136''"
proof -
  have h: "\<not> contains ''arxiv.org'' ''math.GT/0309136v2''" by simp
  have v: "strip_version ''math.GT/0309136v2'' = ''math.GT/0309136''"
    using strip_version_marker [of "''v2''" "''math.GT/0309136''"]
    by (simp add: version_suffix_def is_digit_def)
  show ?thesis by (simp only: clean_arxiv_id_def h v if_False)
qed

text \<open>
  Claim C9 says that \<^verbatim>\<open>get_paper\<close> and \<^verbatim>\<open>get_papers\<close> always query with the bare
  identifier without its version, also when the identifier comes as a URL. The code
  does not, for an old-style URL whose category has a subject class: for
  \<^verbatim>\<open>https://arxiv.org/abs/math.GT/0309136v2\<close> neither pattern matches, only the version is
  cut off, and the request that is sent carries the URL as its \<^verbatim>\<open>id_list\<close>. The same
  identifier given bare is reduced to \<^verbatim>\<open>math.GT/0309136\<close>.
\<close>

theorem get_paper_subject_class_url:
  "clean_arxiv_id ''https://arxiv.org/abs/math.GT/0309136v2'' = ''https://arxiv.org/abs/math.GT/0309136''
   \<and> get_paper_params ''https://arxiv.org/abs/math.GT/0309136v2''
       = [(''id_list'', JStr ''https://arxiv.org/abs/math.GT/0309136''), (''max_results'', JInt 1)]
   \<and> HttpGet [(''id_list'', JStr ''https://arxiv.org/abs/math.GT/0309136''), (''max_results'', JInt 1)]
       \<in> set (trace (snd (snd (get_paper E (new_client 3 None 24 3) w
                ''https://arxiv.org/abs/math.GT/0309136v2''))))
   \<and> get_papers_params [''https://arxiv.org/abs/math.GT/0309136v2'']
       = [(''id_list'', JStr ''https://arxiv.org/abs/math.GT/0309136''), (''max_results'', JInt 1)]
   \<and> HttpGet [(''id_list'', JStr ''https://arxiv.org/abs/math.GT/0309136''), (''max_results'', JInt 1)]
       \<in> set (trace (snd (snd (get_papers E (new_client 3 None 24 3) w
                [''https://arxiv.org/abs/math.GT/0309136v2'']))))
   \<and> clean_arxiv_id ''math.GT/0309136v2'' = ''math.GT/0309136''"
proof -
  let ?ps = "[(''id_list'', JStr ''https://arxiv.org/abs/math.GT/0309136''), (''max_results'', JInt 1)]"
  let ?c = "new_client 3 None 24 3"
  have p1: "get_paper_params ''https://arxiv.org/abs/math.GT/0309136v2'' = ?ps"
    by (simp only: get_paper_params_def subject_class_url)
  have p2: "get_papers_params [''https://arxiv.org/abs/math.GT/0309136v2''] = ?ps"
    by (simp add: get_papers_params_def subject_class_url)
  have c: "cache_dir ?c = None" "0 < max_retries ?c" by (simp_all add: new_client_def)
  note m = make_request_sends [OF c, of ?ps E w]
  have g1: "HttpGet ?ps \<in> set (trace (snd (snd (get_paper E ?c w ''https://arxiv.org/abs/math.GT/0309136v2''))))"
    using m unfolding get_paper_def p1
    by (cases "make_request E ?c w ?ps") (auto split: sum.splits)
  have g2: "HttpGet ?ps \<in> set (trace (snd (snd (get_papers E ?c w [''https://arxiv.org/abs/math.GT/0309136v2'']))))"
    using m unfolding get_papers_def p2 .
  from subject_class_url p1 g1 p2 g2 subject_class_bare show ?thesis by blast
qed

subsection \<open>Retries and failures that end a request\<close>

lemma backoff_sleeps_append: "backoff_sleeps (a @ b) = backoff_sleeps a @ backoff_sleeps b"
  by (simp add: backoff_sleeps_def)

lemma sent_eq: "trace w' = trace w @ tr \<Longrightarrow> sent w' = sent w + length (filter is_get tr)"
  by (simp add: sent_def)

lemma send_facts:
  assumes "send E ps c w = (outcome, c1, w1)"
  shows "outcome = snd (network E (sent w) ps)"
    and "max_retries c1 = max_retries c" and "cache_dir c1 = cache_dir c"
    and "cache_ttl c1 = cache_ttl c" and "rate_limit_delay c1 = rate_limit_delay c"
    and "files w1 = files w" and "sent w1 = Suc (sent w)"
    and "backoff_sleeps (trace w1) = backoff_sleeps (trace w)"
    and "last (trace w1) = HttpGet ps" and "trace w1 \<noteq> []"
  using assms
  by (auto simp: send_def Let_def rate_limit_def backoff_sleeps_def sent_def split: prod.splits)

lemma backoff_facts:
  "sent (backoff w a) = sent w" "files (backoff w a) = files w"
  "backoff_sleeps (trace (backoff w a)) = backoff_sleeps (trace w) @ [2 ^ a]"
  by (simp_all add: backoff_def sent_def backoff_sleeps_def)

text \<open>An attempt that fails transiently, with attempts left: a sleep, and the next attempt.\<close>

lemma attempt_transient:
  assumes "transient (snd (network E (sent w) ps))" and "int attempt < max_retries c - 1"
  shows "\<exists>c1 w1. attempt_request E ps key attempt c w = (Continue, c1, w1)
     \<and> max_retries c1 = max_retries c \<and> cache_dir c1 = cache_dir c
     \<and> files w1 = files w \<and> sent w1 = Suc (sent w)
     \<and> backoff_sleeps (trace w1) = backoff_sleeps (trace w) @ [2 ^ attempt]"
proof -
  obtain outcome c1 w1 where s: "send E ps c w = (outcome, c1, w1)" by (cases "send E ps c w")
  note f = send_facts [OF s]
  from assms(1) f(1) have t: "transient outcome" by simp
  have "attempt_request E ps key attempt c w = (Continue, c1, backoff w1 attempt)"
    using t assms(2) f(2) by (cases outcome) (auto simp: attempt_request_def s)
  with f show ?thesis by (simp add: backoff_facts)
qed

lemma attempt_final:
  assumes "final_failure (snd (network E (sent w) ps)) = Some err"
  shows "\<exists>c1 w1. attempt_request E ps key attempt c w = (Raise err, c1, w1)
     \<and> files w1 = files w \<and> sent w1 = Suc (sent w)
     \<and> backoff_sleeps (trace w1) = backoff_sleeps (trace w) \<and> last (trace w1) = HttpGet ps"
proof -
  obtain outcome c1 w1 where s: "send E ps c w = (outcome, c1, w1)" by (cases "send E ps c w")
  note f = send_facts [OF s]
  from assms f(1) have t: "final_failure outcome = Some err" by simp
  have "attempt_request E ps key attempt c w = (Raise err, c1, w1)"
    using t by (cases outcome) (auto simp: attempt_request_def s split: option.splits if_splits)
  with f show ?thesis by simp
qed

lemma attempt_success:
  assumes "succeeds (dates E) (snd (network E (sent w) ps)) papers"
  shows "\<exists>c1 w1. attempt_request E ps key attempt c w = (Return papers, c1, w1)
     \<and> sent w1 = Suc (sent w) \<and> backoff_sleeps (trace w1) = backoff_sleeps (trace w)
     \<and> last (trace w1) = HttpGet ps"
proof -
  obtain outcome c1 w1 where s: "send E ps c w = (outcome, c1, w1)" by (cases "send E ps c w")
  note f = send_facts [OF s]
  from assms f(1) have t: "succeeds (dates E) outcome papers" by simp
  then obtain entries where o: "outcome = Response 200 (Some entries)" "api_error entries = None"
    "parse_entries (dates E) entries = Inr papers"
    by (cases "(dates E, outcome, papers)" rule: succeeds.cases) auto
  have "attempt_request E ps key attempt c w
      = (Return papers, c1, w1\<lparr>files := set_cached c1 (files w1) (clock w1) key papers\<rparr>)"
    using o by (simp add: attempt_request_def s)
  with f show ?thesis by (simp add: sent_def)
qed

text \<open>A run of \<open>k\<close> transient failures that leaves attempts over.\<close>

lemma request_loop_transient_run:
  assumes "\<forall>i<k. transient (snd (network E (sent w + i) ps))"
    and "k < remaining" and "int (attempt + remaining) = max_retries c"
  shows "\<exists>c' w'. request_loop E ps key remaining attempt c w
            = request_loop E ps key (remaining - k) (attempt + k) c' w'
     \<and> max_retries c' = max_retries c \<and> cache_dir c' = cache_dir c
     \<and> files w' = files w \<and> sent w' = sent w + k
     \<and> backoff_sleeps (trace w') = backoff_sleeps (trace w) @ map (\<lambda>i. 2 ^ (attempt + i)) [0..<k]"
  using assms
proof (induction k arbitrary: remaining attempt c w)
  case 0
  show ?case by (intro exI [of _ c] exI [of _ w]) simp
next
  case (Suc k)
  from Suc.prems(2) obtain r where r: "remaining = Suc r" "k < r" by (cases remaining) auto
  from Suc.prems(1) have t0: "transient (snd (network E (sent w) ps))" by force
  from Suc.prems(2,3) r have lt: "int attempt < max_retries c - 1" by simp
  from attempt_transient [OF t0 lt, of key] obtain c1 w1
    where a: "attempt_request E ps key attempt c w = (Continue, c1, w1)"
      and f: "max_retries c1 = max_retries c" "cache_dir c1 = cache_dir c" "files w1 = files w"
        "sent w1 = Suc (sent w)"
        "backoff_sleeps (trace w1) = backoff_sleeps (trace w) @ [2 ^ attempt]"
    by blast
  have step: "request_loop E ps key remaining attempt c w = request_loop E ps key r (Suc attempt) c1 w1"
    using a r by simp
  have t1: "\<forall>i<k. transient (snd (network E (sent w1 + i) ps))"
  proof (intro allI impI)
    fix i assume "i < k"
    then have "Suc i < Suc k" by simp
    with Suc.prems(1) have "transient (snd (network E (sent w + Suc i) ps))" by blast
    then show "transient (snd (network E (sent w1 + i) ps))" by (simp add: f(4))
  qed
  have inv: "int (Suc attempt + r) = max_retries c1" using Suc.prems(3) r f(1) by simp
  from Suc.IH [OF t1 r(2) inv] obtain c' w'
    where l: "request_loop E ps key r (Suc attempt) c1 w1
              = request_loop E ps key (r - k) (Suc attempt + k) c' w'"
      and g: "max_retries c' = max_retries c1" "cache_dir c' = cache_dir c1" "files w' = files w1"
        "sent w' = sent w1 + k"
        "backoff_sleeps (trace w') = backoff_sleeps (trace w1) @ map (\<lambda>i. 2 ^ (Suc attempt + i)) [0..<k]"
    by blast
  have m: "map (\<lambda>i. 2 ^ (attempt + i)) [0..<Suc k]
      = (2 ^ attempt :: nat) # map (\<lambda>i. 2 ^ (Suc attempt + i)) [0..<k]"
    by (simp add: upt_rec [of 0 "Suc k"] map_Suc_upt [symmetric] del: upt_Suc)
  have "remaining - Suc k = r - k" "attempt + Suc k = Suc attempt + k" using r by simp_all
  with step l have e: "request_loop E ps key remaining attempt c w
      = request_loop E ps key (remaining - Suc k) (attempt + Suc k) c' w'"
    by (simp only:)
  show ?case
    by (intro exI [of _ c'] exI [of _ w'] conjI) (simp_all add: e g f m del: upt_Suc)
qed


lemma doubling_simps: "doubling 0 = []" "doubling (Suc k) = doubling k @ [2 ^ k]"
  by (simp_all add: doubling_def)

lemma make_request_miss:
  assumes "get_cached c (files w) (clock w) (get_cache_key (md5_digest E) ps) = Inr None"
  shows "make_request E c w ps
           = request_loop E ps (get_cache_key (md5_digest E) ps) (nat (max_retries c)) 0 c w"
  using assms by (simp add: make_request_def Let_def)

lemma retries_then_outcome:
  assumes "get_cached c (files w) (clock w) (get_cache_key (md5_digest E) ps) = Inr None"
    and "int k < max_retries c"
    and "\<forall>i<k. transient (snd (network E (sent w + i) ps))"
  shows "\<exists>c' w' r. make_request E c w ps
            = (case attempt_request E ps (get_cache_key (md5_digest E) ps) k c' w' of
                 (Return papers, c2, w2) \<Rightarrow> (Inr papers, c2, w2)
               | (Raise err, c2, w2) \<Rightarrow> (Inl err, c2, w2)
               | (Continue, c2, w2) \<Rightarrow>
                   request_loop E ps (get_cache_key (md5_digest E) ps) r (Suc k) c2 w2)
     \<and> max_retries c' = max_retries c
     \<and> sent w' = sent w + k
     \<and> backoff_sleeps (trace w') = backoff_sleeps (trace w) @ doubling k"
proof -
  let ?key = "get_cache_key (md5_digest E) ps"
  from assms(2) have lt: "k < nat (max_retries c)" by simp
  from assms(2) have inv: "int (0 + nat (max_retries c)) = max_retries c" by simp
  from request_loop_transient_run [OF assms(3) lt inv, of ?key] obtain c' w'
    where l: "request_loop E ps ?key (nat (max_retries c)) 0 c w
              = request_loop E ps ?key (nat (max_retries c) - k) (0 + k) c' w'"
      and f: "max_retries c' = max_retries c" "sent w' = sent w + k"
        "backoff_sleeps (trace w') = backoff_sleeps (trace w) @ map (\<lambda>i. 2 ^ (0 + i)) [0..<k]"
    by blast
  from lt obtain r where r: "nat (max_retries c) - k = Suc r" by (cases "nat (max_retries c) - k") auto
  have "make_request E c w ps = request_loop E ps ?key (Suc r) k c' w'"
    using make_request_miss [OF assms(1)] l r by simp
  then show ?thesis using f
    by (intro exI [of _ c'] exI [of _ w'] exI [of _ r]) (simp add: doubling_def)
qed

lemma retries_then_success:
  assumes "get_cached c (files w) (clock w) (get_cache_key (md5_digest E) ps) = Inr None"
    and "int k < max_retries c"
    and "\<forall>i<k. transient (snd (network E (sent w + i) ps))"
    and "succeeds (dates E) (snd (network E (sent w + k) ps)) papers"
  shows "\<exists>c' w'. make_request E c w ps = (Inr papers, c', w')
     \<and> sent w' = sent w + k + 1
     \<and> backoff_sleeps (trace w') = backoff_sleeps (trace w) @ doubling k"
proof -
  let ?key = "get_cache_key (md5_digest E) ps"
  from retries_then_outcome [OF assms(1-3)] obtain c1 w1 r
    where m: "make_request E c w ps
            = (case attempt_request E ps ?key k c1 w1 of
                 (Return papers, c2, w2) \<Rightarrow> (Inr papers, c2, w2)
               | (Raise err, c2, w2) \<Rightarrow> (Inl err, c2, w2)
               | (Continue, c2, w2) \<Rightarrow> request_loop E ps ?key r (Suc k) c2 w2)"
      and f: "sent w1 = sent w + k" "backoff_sleeps (trace w1) = backoff_sleeps (trace w) @ doubling k"
    by blast
  from assms(4) f(1) have "succeeds (dates E) (snd (network E (sent w1) ps)) papers" by simp
  from attempt_success [OF this, of ?key k c1] obtain c2 w2
    where a: "attempt_request E ps ?key k c1 w1 = (Return papers, c2, w2)"
      and g: "sent w2 = Suc (sent w1)" "backoff_sleeps (trace w2) = backoff_sleeps (trace w1)"
    by blast
  show ?thesis
    by (intro exI [of _ c2] exI [of _ w2]) (simp add: m a g f)
qed

lemma retries_then_final:
  assumes "get_cached c (files w) (clock w) (get_cache_key (md5_digest E) ps) = Inr None"
    and "int k < max_retries c"
    and "\<forall>i<k. transient (snd (network E (sent w + i) ps))"
    and "final_failure (snd (network E (sent w + k) ps)) = Some err"
  shows "\<exists>c' w'. make_request E c w ps = (Inl err, c', w')
     \<and> sent w' = sent w + k + 1
     \<and> backoff_sleeps (trace w') = backoff_sleeps (trace w) @ doubling k
     \<and> last (trace w') = HttpGet ps"
proof -
  let ?key = "get_cache_key (md5_digest E) ps"
  from retries_then_outcome [OF assms(1-3)] obtain c1 w1 r
    where m: "make_request E c w ps
            = (case attempt_request E ps ?key k c1 w1 of
                 (Return papers, c2, w2) \<Rightarrow> (Inr papers, c2, w2)
               | (Raise err, c2, w2) \<Rightarrow> (Inl err, c2, w2)
               | (Continue, c2, w2) \<Rightarrow> request_loop E ps ?key r (Suc k) c2 w2)"
      and f: "sent w1 = sent w + k" "backoff_sleeps (trace w1) = backoff_sleeps (trace w) @ doubling k"
    by blast
  from assms(4) f(1) have "final_failure (snd (network E (sent w1) ps)) = Some err" by simp
  from attempt_final [OF this, of ?key k c1] obtain c2 w2
    where a: "attempt_request E ps ?key k c1 w1 = (Raise err, c2, w2)"
      and g: "sent w2 = Suc (sent w1)" "backoff_sleeps (trace w2) = backoff_sleeps (trace w1)"
        "last (trace w2) = HttpGet ps"
    by blast
  show ?thesis
    by (intro exI [of _ c2] exI [of _ w2]) (simp add: m a g f)
qed

text \<open>Attempts that fall through to the next one whatever the attempt is.\<close>

lemma attempt_fall_through:
  assumes "snd (network E (sent w) ps) = Response status content"
    and "status \<noteq> 200" and "500 \<le> status \<or> status < 400"
  shows "\<exists>c1 w1. attempt_request E ps key attempt c w = (Continue, c1, w1)
     \<and> max_retries c1 = max_retries c \<and> sent w1 = Suc (sent w)
     \<and> backoff_sleeps (trace w1)
         = backoff_sleeps (trace w) @ (if 500 \<le> status then [2 ^ attempt] else [])"
proof -
  obtain outcome c1 w1 where s: "send E ps c w = (outcome, c1, w1)" by (cases "send E ps c w")
  note f = send_facts [OF s]
  from assms(1) f(1) have o: "outcome = Response status content" by simp
  show ?thesis
  proof (cases "500 \<le> status")
    case True
    then have "attempt_request E ps key attempt c w = (Continue, c1, backoff w1 attempt)"
      using assms(2) by (simp add: attempt_request_def s o)
    with f True show ?thesis by (simp add: backoff_facts)
  next
    case False
    with assms(3) have "status < 400" by simp
    with False have "attempt_request E ps key attempt c w = (Continue, c1, w1)"
      using assms(2) by (simp add: attempt_request_def s o)
    with f False show ?thesis by simp
  qed
qed

lemma request_loop_fall_through:
  assumes "\<forall>i<remaining. snd (network E (sent w + i) ps) = Response status content"
    and "status \<noteq> 200" and "500 \<le> status \<or> status < 400"
  shows "\<exists>c' w'. request_loop E ps key remaining attempt c w = (Inl (FailedAfter (max_retries c)), c', w')
     \<and> sent w' = sent w + remaining
     \<and> backoff_sleeps (trace w')
         = backoff_sleeps (trace w)
           @ (if 500 \<le> status then map (\<lambda>i. 2 ^ (attempt + i)) [0..<remaining] else [])"
  using assms(1)
proof (induction remaining arbitrary: attempt c w)
  case 0
  show ?case by (intro exI [of _ c] exI [of _ w]) simp
next
  case (Suc remaining)
  from Suc.prems have o: "snd (network E (sent w) ps) = Response status content" by force
  from attempt_fall_through [OF o assms(2,3), of key attempt c] obtain c1 w1
    where a: "attempt_request E ps key attempt c w = (Continue, c1, w1)"
      and f: "max_retries c1 = max_retries c" "sent w1 = Suc (sent w)"
        "backoff_sleeps (trace w1)
           = backoff_sleeps (trace w) @ (if 500 \<le> status then [2 ^ attempt] else [])"
    by blast
  have t1: "\<forall>i<remaining. snd (network E (sent w1 + i) ps) = Response status content"
  proof (intro allI impI)
    fix i assume "i < remaining"
    then have "Suc i < Suc remaining" by simp
    with Suc.prems have "snd (network E (sent w + Suc i) ps) = Response status content" by blast
    then show "snd (network E (sent w1 + i) ps) = Response status content" by (simp add: f(2))
  qed
  from Suc.IH [OF t1, of "Suc attempt" c1] obtain c' w'
    where l: "request_loop E ps key remaining (Suc attempt) c1 w1
                = (Inl (FailedAfter (max_retries c1)), c', w')"
      and g: "sent w' = sent w1 + remaining"
        "backoff_sleeps (trace w')
           = backoff_sleeps (trace w1)
             @ (if 500 \<le> status then map (\<lambda>i. 2 ^ (Suc attempt + i)) [0..<remaining] else [])"
    by blast
  have m: "map (\<lambda>i. 2 ^ (attempt + i)) [0..<Suc remaining]
      = (2 ^ attempt :: nat) # map (\<lambda>i. 2 ^ (Suc attempt + i)) [0..<remaining]"
    by (simp add: upt_rec [of 0 "Suc remaining"] map_Suc_upt [symmetric] del: upt_Suc)
  have e: "request_loop E ps key (Suc remaining) attempt c w = (Inl (FailedAfter (max_retries c)), c', w')"
    using a l f(1) by simp
  show ?case
  proof (intro exI [of _ c'] exI [of _ w'] conjI)
    show "request_loop E ps key (Suc remaining) attempt c w = (Inl (FailedAfter (max_retries c)), c', w')"
      by (rule e)
  qed (simp_all add: g f m del: upt_Suc)
qed

lemma attempt_timeout_last:
  assumes "snd (network E (sent w) ps) = Timeout" and "\<not> int attempt < max_retries c - 1"
  shows "\<exists>c1 w1. attempt_request E ps key attempt c w = (Raise (RequestTimedOut (max_retries c)), c1, w1)
     \<and> sent w1 = Suc (sent w) \<and> backoff_sleeps (trace w1) = backoff_sleeps (trace w)"
proof -
  obtain outcome c1 w1 where s: "send E ps c w = (outcome, c1, w1)" by (cases "send E ps c w")
  note f = send_facts [OF s]
  from assms(1) f(1) have o: "outcome = Timeout" by simp
  have "attempt_request E ps key attempt c w = (Raise (RequestTimedOut (max_retries c)), c1, w1)"
    using assms(2) f(2) by (simp add: attempt_request_def s o)
  with f show ?thesis by simp
qed


lemma no_cache_miss: "get_cached (new_client d None h r) fs now key = Inr None"
  by (simp add: get_cached_def new_client_def)

lemma doubling_values: "doubling 1 = [1]" "doubling 2 = [1, 2]" "doubling 3 = [1, 2, 4]"
proof -
  have "doubling 1 = doubling (Suc 0)" by (rule arg_cong [where f = doubling]) simp
  also have "\<dots> = [1]" by (simp add: doubling_simps)
  finally show "doubling 1 = [1]" .
  have "doubling 2 = doubling (Suc (Suc 0))" by (rule arg_cong [where f = doubling]) simp
  also have "\<dots> = [1, 2]" by (simp add: doubling_simps)
  finally show "doubling 2 = [1, 2]" .
  have "doubling 3 = doubling (Suc (Suc (Suc 0)))" by (rule arg_cong [where f = doubling]) simp
  also have "\<dots> = [1, 2, 4]" by (simp add: doubling_simps)
  finally show "doubling 3 = [1, 2, 4]" .
qed

lemma retries_then_timeout:
  assumes "get_cached c (files w) (clock w) (get_cache_key (md5_digest E) ps) = Inr None"
    and "int (Suc k) = max_retries c"
    and "\<forall>i<k. transient (snd (network E (sent w + i) ps))"
    and "snd (network E (sent w + k) ps) = Timeout"
  shows "\<exists>c' w'. make_request E c w ps = (Inl (RequestTimedOut (max_retries c)), c', w')
     \<and> sent w' = sent w + k + 1
     \<and> backoff_sleeps (trace w') = backoff_sleeps (trace w) @ doubling k"
proof -
  let ?key = "get_cache_key (md5_digest E) ps"
  from assms(2) have k: "int k < max_retries c" by simp
  from retries_then_outcome [OF assms(1) k assms(3)] obtain c1 w1 r
    where m: "make_request E c w ps
            = (case attempt_request E ps ?key k c1 w1 of
                 (Return papers, c2, w2) \<Rightarrow> (Inr papers, c2, w2)
               | (Raise err, c2, w2) \<Rightarrow> (Inl err, c2, w2)
               | (Continue, c2, w2) \<Rightarrow> request_loop E ps ?key r (Suc k) c2 w2)"
      and f: "max_retries c1 = max_retries c" "sent w1 = sent w + k"
        "backoff_sleeps (trace w1) = backoff_sleeps (trace w) @ doubling k"
    by blast
  from assms(4) f(2) have o: "snd (network E (sent w1) ps) = Timeout" by simp
  from assms(2) f(1) have last: "\<not> int k < max_retries c1 - 1" by simp
  from attempt_timeout_last [OF o last, of ?key] obtain c2 w2
    where a: "attempt_request E ps ?key k c1 w1 = (Raise (RequestTimedOut (max_retries c1)), c2, w2)"
      and g: "sent w2 = Suc (sent w1)" "backoff_sleeps (trace w2) = backoff_sleeps (trace w1)"
    by blast
  show ?thesis
    by (intro exI [of _ c2] exI [of _ w2]) (simp add: m a g f)
qed

text \<open>
  Claim C1 says that a run of \<open>k\<close> transient failures, with \<open>k\<close> below the number of
  attempts, followed by a success returns the result after sleeps of 1, 2, 4, ...,
  \<open>2 ^ (k - 1)\<close> seconds (lemma \<open>retries_then_success\<close>), and that when every attempt
  fails transiently the call fails with an error that names the number of retries and
  the cause. For timeouts and connection failures the code does so: the last attempt
  is not followed by a sleep and the error names the cause. For a status from 500 on
  it does not: the branch has no test for the last attempt, so the last attempt is
  followed by a sleep as well, and the error raised after the loop names the number of
  retries only. With three attempts, a server that answers 503 costs sleeps of 1, 2 and
  4 seconds and ends in the error of exhausted retries, a server that times out
  costs sleeps of 1 and 2 seconds and ends in the error of a timed out request.
\<close>

theorem server_errors_exhausted:
  "(\<exists>c' w'. make_request (E\<lparr>network := \<lambda>n ps. (0, Response 503 None)\<rparr>) (new_client 3 None 24 3) w ps
        = (Inl (FailedAfter 3), c', w')
      \<and> sent w' = sent w + 3
      \<and> backoff_sleeps (trace w') = backoff_sleeps (trace w) @ [1, 2, 4])
   \<and> (\<exists>c' w'. make_request (E\<lparr>network := \<lambda>n ps. (0, Timeout)\<rparr>) (new_client 3 None 24 3) w ps
        = (Inl (RequestTimedOut 3), c', w')
      \<and> sent w' = sent w + 3
      \<and> backoff_sleeps (trace w') = backoff_sleeps (trace w) @ [1, 2])"
proof
  let ?c = "new_client 3 None 24 3"
  let ?E = "E\<lparr>network := \<lambda>n ps. (0, Response 503 None)\<rparr>"
  let ?key = "get_cache_key (md5_digest ?E) ps"
  have m: "make_request ?E ?c w ps = request_loop ?E ps ?key (nat (max_retries ?c)) 0 ?c w"
    by (rule make_request_miss) (rule no_cache_miss)
  have r: "nat (max_retries ?c) = 3" "max_retries ?c = 3" by (simp_all add: new_client_def)
  have a: "\<forall>i<3. snd (network ?E (sent w + i) ps) = Response 503 None" by simp
  from request_loop_fall_through [OF a, of ?key 0 ?c] obtain c' w'
    where "request_loop ?E ps ?key 3 0 ?c w = (Inl (FailedAfter (max_retries ?c)), c', w')"
      and "sent w' = sent w + 3"
      and "backoff_sleeps (trace w') = backoff_sleeps (trace w) @ map (\<lambda>i. 2 ^ (0 + i)) [0..<3]"
    by auto
  then show "\<exists>c' w'. make_request ?E ?c w ps = (Inl (FailedAfter 3), c', w')
      \<and> sent w' = sent w + 3
      \<and> backoff_sleeps (trace w') = backoff_sleeps (trace w) @ [1, 2, 4]"
    using doubling_values(3) by (simp add: m r doubling_def)
next
  let ?c = "new_client 3 None 24 3"
  let ?E = "E\<lparr>network := \<lambda>n ps. (0, Timeout)\<rparr>"
  have miss: "get_cached ?c (files w) (clock w) (get_cache_key (md5_digest ?E) ps) = Inr None"
    by (rule no_cache_miss)
  have k: "int (Suc 2) = max_retries ?c" by (simp add: new_client_def)
  have t: "\<forall>i<2. transient (snd (network ?E (sent w + i) ps))" by simp
  have o: "snd (network ?E (sent w + 2) ps) = Timeout" by simp
  from retries_then_timeout [OF miss k t o] obtain c' w'
    where "make_request ?E ?c w ps = (Inl (RequestTimedOut (max_retries ?c)), c', w')"
      and "sent w' = sent w + 2 + 1"
      and "backoff_sleeps (trace w') = backoff_sleeps (trace w) @ doubling 2"
    by blast
  then show "\<exists>c' w'. make_request ?E ?c w ps = (Inl (RequestTimedOut 3), c', w')
      \<and> sent w' = sent w + 3
      \<and> backoff_sleeps (trace w') = backoff_sleeps (trace w) @ [1, 2]"
    by (intro exI [of _ c'] exI [of _ w']) (simp add: doubling_values new_client_def)
qed

text \<open>
  Claim C2 says that every failure that is not transient fails at once, with no sleep
  and no further attempt, and counts among them every status other than 200 below
  500. For a status from 400 to 499, for a content that does not parse and for an
  error entry the code does so (lemma \<open>retries_then_final\<close>). For a status below 400
  other than 200 it does not: \<^verbatim>\<open>raise_for_status\<close> raises nothing there, the loop goes
  on to the next attempt without a sleep, and after the last attempt the call fails
  with the error of exhausted retries. With three attempts and a server that answers
  204, three requests are sent; with a server that answers 404, one.
\<close>

theorem status_204_retried:
  "(\<exists>c' w'. make_request (E\<lparr>network := \<lambda>n ps. (0, Response 204 None)\<rparr>) (new_client 3 None 24 3) w ps
        = (Inl (FailedAfter 3), c', w')
      \<and> sent w' = sent w + 3
      \<and> backoff_sleeps (trace w') = backoff_sleeps (trace w))
   \<and> (\<exists>c' w'. make_request (E\<lparr>network := \<lambda>n ps. (0, Response 404 None)\<rparr>) (new_client 3 None 24 3) w ps
        = (Inl (HTTPError 404), c', w')
      \<and> sent w' = sent w + 1
      \<and> backoff_sleeps (trace w') = backoff_sleeps (trace w))"
proof
  let ?c = "new_client 3 None 24 3"
  let ?E = "E\<lparr>network := \<lambda>n ps. (0, Response 204 None)\<rparr>"
  let ?key = "get_cache_key (md5_digest ?E) ps"
  have m: "make_request ?E ?c w ps = request_loop ?E ps ?key (nat (max_retries ?c)) 0 ?c w"
    by (rule make_request_miss) (rule no_cache_miss)
  have r: "nat (max_retries ?c) = 3" "max_retries ?c = 3" by (simp_all add: new_client_def)
  have a: "\<forall>i<3. snd (network ?E (sent w + i) ps) = Response 204 None" by simp
  from request_loop_fall_through [OF a, of ?key 0 ?c] obtain c' w'
    where "request_loop ?E ps ?key 3 0 ?c w = (Inl (FailedAfter (max_retries ?c)), c', w')"
      and "sent w' = sent w + 3"
      and "backoff_sleeps (trace w') = backoff_sleeps (trace w)"
    by auto
  then show "\<exists>c' w'. make_request ?E ?c w ps = (Inl (FailedAfter 3), c', w')
      \<and> sent w' = sent w + 3 \<and> backoff_sleeps (trace w') = backoff_sleeps (trace w)"
    by (intro exI [of _ c'] exI [of _ w']) (simp add: m r)
next
  let ?c = "new_client 3 None 24 3"
  let ?E = "E\<lparr>network := \<lambda>n ps. (0, Response 404 None)\<rparr>"
  have miss: "get_cached ?c (files w) (clock w) (get_cache_key (md5_digest ?E) ps) = Inr None"
    by (rule no_cache_miss)
  have k: "int 0 < max_retries ?c" by (simp add: new_client_def)
  have t: "\<forall>i<0. transient (snd (network ?E (sent w + i) ps))" by simp
  have o: "final_failure (snd (network ?E (sent w + 0) ps)) = Some (HTTPError 404)" by simp
  from retries_then_final [OF miss k t o] obtain c' w'
    where "make_request ?E ?c w ps = (Inl (HTTPError 404), c', w')"
      and "sent w' = sent w + 0 + 1"
      and "backoff_sleeps (trace w') = backoff_sleeps (trace w) @ doubling 0"
    by blast
  then show "\<exists>c' w'. make_request ?E ?c w ps = (Inl (HTTPError 404), c', w')
       \<and> sent w' = sent w + 1 \<and> backoff_sleeps (trace w') = backoff_sleeps (trace w)"
    by (intro exI [of _ c'] exI [of _ w']) (simp add: doubling_simps)
qed

end
